theory Spec2Isabelle
  imports Complex_Main "HOL-Library.Log_Nat"
begin

text \<open>
  The program \<^verbatim>\<open>tr-nums.py\<close> has two generators and a top level.
  \<^verbatim>\<open>inv_tr_nums(d)\<close> yields, for \<open>n = 1, 2, \<dots>\<close>, the reciprocal of the
  gamma ratio \<open>\<Gamma>(n + d) / (\<Gamma>(n) \<Gamma>(d + 1))\<close>, computed in double precision and
  turned into an exact rational before the reciprocal is taken.
  \<^verbatim>\<open>inv_gap_nums(d)\<close> yields the running sums of these values, from \<open>-1\<close>. The
  top level prints the first ten values of both generators for \<open>d = 2\<close> and
  \<open>d = 3\<close>. The theory embeds the three, with the floating-point arithmetic,
  the exceptions and the generator frames made explicit, and proves the
  properties claimed of them.
\<close>

section \<open>Double-precision arithmetic used by the gamma ratio\<close>

text \<open>
  The program computes \<^verbatim>\<open>gamma(n + d) / (gamma(n) * gamma(d + 1))\<close> on NumPy
  double-precision scalars. A double is modelled by its sign bit and its exact
  magnitude (a non-negative rational), or it is an infinity or a NaN. The sign
  bit is \<open>True\<close> for negative values, so both zeros exist, as in IEEE 754.
  The operations below round the magnitude of the exact result and never
  produce a negative magnitude from non-negative ones.
\<close>

datatype double = Finite bool rat | Infinity bool | NaN

definition pow2 :: "int \<Rightarrow> rat" where
  "pow2 e = (if 0 \<le> e then 2 ^ nat e else 1 / 2 ^ nat (- e))"

text \<open>\<open>ilog2 q\<close> is the binary exponent of a positive rational:
  \<open>2^k \<le> q < 2^(k+1)\<close> for \<open>k = ilog2 q\<close>.\<close>

definition ilog2 :: "rat \<Rightarrow> int" where
  "ilog2 q =
     (let (a, b) = quotient_of q; k = bitlen a - bitlen b
      in if pow2 k \<le> q then k else k - 1)"

definition round_half_even :: "rat \<Rightarrow> int" where
  "round_half_even q =
     (let f = \<lfloor>q\<rfloor>; r = q - of_int f
      in if r < 1 / 2 then f
         else if 1 / 2 < r then f + 1
         else if even f then f else f + 1)"

text \<open>
  Rounding of a non-negative exact result \<open>q\<close> to the nearest double, ties to
  even. The spacing of the doubles around \<open>q\<close> is \<open>2^e\<close> with
  \<open>e = ilog2 q - 52\<close> (53 significant bits), and never less than \<open>2^-1074\<close>
  (subnormals). The significand \<open>m\<close> is \<open>q / 2^e\<close> rounded to an integer, at
  most \<open>2^53\<close>. The largest double is \<open>(2^53 - 1) * 2^971\<close>, so the result
  \<open>m * 2^e\<close> overflows to infinity when it reaches \<open>2^1024\<close>: when \<open>e\<close>
  exceeds 971, or \<open>e = 971\<close> and the significand has been rounded up to \<open>2^53\<close>.
\<close>

definition round_double :: "bool \<Rightarrow> rat \<Rightarrow> double" where
  "round_double s q =
     (if q = 0 then Finite s 0
      else let e = max (ilog2 q - 52) (- 1074);
               m = round_half_even (q / pow2 e)
           in if 971 < e \<or> (e = 971 \<and> 2 ^ 53 \<le> m) then Infinity s
              else Finite s (of_int m * pow2 e))"

text \<open>The \<^verbatim>\<open>*\<close> and \<^verbatim>\<open>/\<close> of two doubles. NumPy scalars do not raise on
  overflow or on division by zero: they return an infinity or a NaN.\<close>

fun float_mul :: "double \<Rightarrow> double \<Rightarrow> double" where
  "float_mul NaN y = NaN"
| "float_mul x NaN = NaN"
| "float_mul (Infinity s) (Infinity t) = Infinity (s \<noteq> t)"
| "float_mul (Infinity s) (Finite t b) = (if b = 0 then NaN else Infinity (s \<noteq> t))"
| "float_mul (Finite s a) (Infinity t) = (if a = 0 then NaN else Infinity (s \<noteq> t))"
| "float_mul (Finite s a) (Finite t b) = round_double (s \<noteq> t) (a * b)"

fun float_truediv :: "double \<Rightarrow> double \<Rightarrow> double" where
  "float_truediv NaN y = NaN"
| "float_truediv x NaN = NaN"
| "float_truediv (Infinity s) (Infinity t) = NaN"
| "float_truediv (Infinity s) (Finite t b) = Infinity (s \<noteq> t)"
| "float_truediv (Finite s a) (Infinity t) = Finite (s \<noteq> t) 0"
| "float_truediv (Finite s a) (Finite t b) =
     (if b = 0 then (if a = 0 then NaN else Infinity (s \<noteq> t))
      else round_double (s \<noteq> t) (a / b))"

section \<open>Exact rationals\<close>

datatype error = OverflowError | ValueError | ZeroDivisionError

text \<open>\<^verbatim>\<open>Fraction(x)\<close> of a double is the exact value of \<open>x\<close>; an infinity
  raises OverflowError and a NaN raises ValueError.\<close>

fun Fraction :: "double \<Rightarrow> error + rat" where
  "Fraction (Finite s m) = Inr (if s then - m else m)"
| "Fraction (Infinity s) = Inl OverflowError"
| "Fraction NaN = Inl ValueError"

text \<open>\<^verbatim>\<open>1 / q\<close> on a Fraction \<open>q\<close>.\<close>

definition one_over :: "rat \<Rightarrow> error + rat" where
  "one_over q = (if q = 0 then Inl ZeroDivisionError else Inr (1 / q))"

section \<open>The gamma evaluator\<close>

text \<open>
  \<^verbatim>\<open>scipy.special.gamma\<close> is a library function outside the repository. The
  generators below take it as a parameter \<open>gamma\<close>, from the integer argument
  to the double returned. A property that depends on its values states what
  it needs of them.

  \<open>gamma_exact gamma K\<close>: on the arguments \<open>1..K\<close> the evaluator returns
  \<open>\<Gamma>(k) = (k - 1)!\<close> exactly.
\<close>

definition gamma_exact :: "(int \<Rightarrow> double) \<Rightarrow> int \<Rightarrow> bool" where
  "gamma_exact gamma K \<longleftrightarrow>
     (\<forall>k\<in>{1..K}. gamma k = Finite False (fact (nat (k - 1))))"

text \<open>\<open>gamma_positive gamma\<close>: on positive arguments the evaluator never
  returns a value with the sign bit set (\<open>\<Gamma>(x) > 0\<close> for \<open>x > 0\<close>). A
  magnitude is never negative.\<close>

fun sign_clear :: "double \<Rightarrow> bool" where
  "sign_clear (Finite s m) = (\<not> s \<and> 0 \<le> m)"
| "sign_clear (Infinity s) = (\<not> s)"
| "sign_clear NaN = True"

definition gamma_positive :: "(int \<Rightarrow> double) \<Rightarrow> bool" where
  "gamma_positive gamma \<longleftrightarrow> (\<forall>k. 1 \<le> k \<longrightarrow> sign_clear (gamma k))"

text \<open>
  Modelled from the spec: the gamma evaluator itself is absent from the
  sources; the spec describes it as a standard evaluator of \<open>\<Gamma>(x)\<close> for
  \<open>x > 0\<close> with a double-precision result. \<open>gamma_rounded\<close> is such an
  evaluator on integer arguments: \<open>(k - 1)!\<close> rounded to the nearest double,
  infinity on overflow. The spec leaves arguments \<open>k \<le> 0\<close> open; NaN is
  returned there.
\<close>

definition gamma_rounded :: "int \<Rightarrow> double" where
  "gamma_rounded k =
     (if 1 \<le> k then round_double False (fact (nat (k - 1))) else NaN)"

section \<open>The two generators\<close>

text \<open>
  The value of the \<^verbatim>\<open>yield\<close> expression of \<^verbatim>\<open>inv_tr_nums\<close> at index \<open>n\<close>:
  \<^verbatim>\<open>1 / Fraction((gamma(n + d) / (gamma(n) * gamma(d + 1))))\<close>.
\<close>

definition tr_yield :: "(int \<Rightarrow> double) \<Rightarrow> int \<Rightarrow> int \<Rightarrow> error + rat" where
  "tr_yield gamma d n =
     (case Fraction (float_truediv (gamma (n + d)) (float_mul (gamma n) (gamma (d + 1)))) of
        Inl e \<Rightarrow> Inl e
      | Inr q \<Rightarrow> one_over q)"

text \<open>
  A generator object is its frame: either created and not yet started, holding
  the argument \<open>d\<close>, or suspended at its \<^verbatim>\<open>yield\<close>, holding its local variables.
  \<^verbatim>\<open>next\<close> runs the body up to the next \<^verbatim>\<open>yield\<close> and returns the value
  yielded with the frame, or the exception raised. No caller in the program
  catches an exception, so an exception ends the run and no frame is returned.
\<close>

datatype tr_gen = Tr_created int | Tr_suspended int int

definition inv_tr_nums :: "int \<Rightarrow> tr_gen" where
  "inv_tr_nums d = Tr_created d"

fun tr_next :: "(int \<Rightarrow> double) \<Rightarrow> tr_gen \<Rightarrow> error + (rat \<times> tr_gen)" where
  "tr_next gamma (Tr_created d) =
     (let n = 1
      in case tr_yield gamma d n of
           Inl e \<Rightarrow> Inl e
         | Inr v \<Rightarrow> Inr (v, Tr_suspended d n))"
| "tr_next gamma (Tr_suspended d n) =
     (let n = n + 1
      in case tr_yield gamma d n of
           Inl e \<Rightarrow> Inl e
         | Inr v \<Rightarrow> Inr (v, Tr_suspended d n))"

datatype gap_gen = Gap_created int | Gap_suspended rat tr_gen

definition inv_gap_nums :: "int \<Rightarrow> gap_gen" where
  "inv_gap_nums d = Gap_created d"

fun gap_next :: "(int \<Rightarrow> double) \<Rightarrow> gap_gen \<Rightarrow> error + (rat \<times> gap_gen)" where
  "gap_next gamma (Gap_created d) =
     (let x = - 1; gen_inv_tr_nums = inv_tr_nums d
      in case tr_next gamma gen_inv_tr_nums of
           Inl e \<Rightarrow> Inl e
         | Inr (v, gen_inv_tr_nums) \<Rightarrow>
             (let x = x + v in Inr (x, Gap_suspended x gen_inv_tr_nums)))"
| "gap_next gamma (Gap_suspended x gen_inv_tr_nums) =
     (case tr_next gamma gen_inv_tr_nums of
        Inl e \<Rightarrow> Inl e
      | Inr (v, gen_inv_tr_nums) \<Rightarrow>
          (let x = x + v in Inr (x, Gap_suspended x gen_inv_tr_nums)))"

text \<open>\<^verbatim>\<open>list(islice(gen, k))\<close>: the first \<open>k\<close> values of a generator, with the
  frame it is left in; \<^verbatim>\<open>islice\<close> calls \<^verbatim>\<open>next\<close> exactly \<open>k\<close> times.\<close>

fun islice :: "('g \<Rightarrow> error + (rat \<times> 'g)) \<Rightarrow> 'g \<Rightarrow> nat \<Rightarrow> error + (rat list \<times> 'g)" where
  "islice nxt g 0 = Inr ([], g)"
| "islice nxt g (Suc k) =
     (case nxt g of
        Inl e \<Rightarrow> Inl e
      | Inr (v, g') \<Rightarrow>
          (case islice nxt g' k of
             Inl e \<Rightarrow> Inl e
           | Inr (vs, g'') \<Rightarrow> Inr (v # vs, g'')))"

text \<open>
  Two generator objects of one producer in one run: \<open>pulls\<close> lists, call by
  call, which of the two objects \<^verbatim>\<open>next\<close> is applied to (\<open>True\<close> for the
  first). The result is the values each object has yielded.
\<close>

fun pull_two ::
  "('g \<Rightarrow> error + (rat \<times> 'g)) \<Rightarrow> bool list \<Rightarrow> 'g \<Rightarrow> 'g \<Rightarrow> error + (rat list \<times> rat list)" where
  "pull_two nxt [] g1 g2 = Inr ([], [])"
| "pull_two nxt (first # pulls) g1 g2 =
     (if first then
        (case nxt g1 of
           Inl e \<Rightarrow> Inl e
         | Inr (v, g1') \<Rightarrow>
             (case pull_two nxt pulls g1' g2 of
                Inl e \<Rightarrow> Inl e
              | Inr (vs1, vs2) \<Rightarrow> Inr (v # vs1, vs2)))
      else
        (case nxt g2 of
           Inl e \<Rightarrow> Inl e
         | Inr (v, g2') \<Rightarrow>
             (case pull_two nxt pulls g1 g2' of
                Inl e \<Rightarrow> Inl e
              | Inr (vs1, vs2) \<Rightarrow> Inr (vs1, v # vs2))))"

section \<open>The driver\<close>

text \<open>\<^verbatim>\<open>str\<close> of an integer and of a Fraction, as \<^verbatim>\<open>print\<close> writes them.\<close>

definition digit_char :: "nat \<Rightarrow> char" where
  "digit_char i = ''0123456789'' ! i"

fun str_nat :: "nat \<Rightarrow> string" where
  "str_nat i = (if i < 10 then [digit_char i] else str_nat (i div 10) @ [digit_char (i mod 10)])"

definition str_int :: "int \<Rightarrow> string" where
  "str_int i = (if i < 0 then CHR ''-'' # str_nat (nat (- i)) else str_nat (nat i))"

definition str_Fraction :: "rat \<Rightarrow> string" where
  "str_Fraction q =
     (let (numerator, denominator) = quotient_of q
      in if denominator = 1 then str_int numerator
         else str_int numerator @ ''/'' @ str_int denominator)"

text \<open>
  \<^verbatim>\<open>for num in islice(gen, N): print(num)\<close>, on the lines printed so far. The
  result is the lines printed and the frame the generator is left in, or the
  exception that ended the loop.
\<close>

fun print_islice ::
  "('g \<Rightarrow> error + (rat \<times> 'g)) \<Rightarrow> 'g \<Rightarrow> nat \<Rightarrow> string list \<Rightarrow> string list \<times> (error + 'g)" where
  "print_islice nxt g 0 out = (out, Inr g)"
| "print_islice nxt g (Suc k) out =
     (case nxt g of
        Inl e \<Rightarrow> (out, Inl e)
      | Inr (num, g') \<Rightarrow> print_islice nxt g' k (out @ [str_Fraction num]))"

definition N :: nat where
  "N = 10"

text \<open>\<^verbatim>\<open>def inv_tr_nums(d=2)\<close>, \<^verbatim>\<open>def inv_gap_nums(d=2)\<close>: the argument of a
  call without arguments.\<close>

definition d_default :: int where
  "d_default = 2"

text \<open>The module's top level: the lines written to standard output, and the
  exception that ended the run, if any.\<close>

definition driver :: "(int \<Rightarrow> double) \<Rightarrow> string list \<times> error option" where
  "driver gamma =
     (case print_islice (tr_next gamma) (inv_tr_nums d_default) N [] of
        (out, Inl e) \<Rightarrow> (out, Some e)
      | (out, Inr gen) \<Rightarrow>
     (case print_islice (tr_next gamma) (inv_tr_nums 3) N (out @ [''---'']) of
        (out, Inl e) \<Rightarrow> (out, Some e)
      | (out, Inr gen) \<Rightarrow>
     (case print_islice (gap_next gamma) (inv_gap_nums d_default) N (out @ [''---'']) of
        (out, Inl e) \<Rightarrow> (out, Some e)
      | (out, Inr gen) \<Rightarrow>
     (case print_islice (gap_next gamma) (inv_gap_nums 3) N (out @ [''---'']) of
        (out, Inl e) \<Rightarrow> (out, Some e)
      | (out, Inr gen) \<Rightarrow> (out, None)))))"

section \<open>Powers of two and the binary exponent\<close>

text \<open>
  The exponent \<open>ilog2 q\<close> brackets a positive rational between two
  consecutive powers of two.
\<close>

lemma pow2_powi: "pow2 e = 2 powi e"
  by (simp add: pow2_def power_int_def inverse_eq_divide power_one_over)

lemma pow2_pos: "0 < pow2 e"
  by (simp add: pow2_def)

lemma pow2_add: "pow2 (a + b) = pow2 a * pow2 b"
  by (simp add: pow2_powi power_int_add)

lemma pow2_diff: "pow2 (a - b) = pow2 a / pow2 b"
  by (simp add: pow2_powi power_int_diff)

lemma pow2_nat: "0 \<le> e \<Longrightarrow> pow2 e = 2 ^ nat e"
  by (simp add: pow2_def)

lemma pow2_0: "pow2 0 = 1"
  by (simp add: pow2_def)

lemma pow2_mono: "a \<le> b \<Longrightarrow> pow2 a \<le> pow2 b"
  by (simp add: pow2_powi power_int_increasing)

lemma pow2_strict_mono: "a < b \<Longrightarrow> pow2 a < pow2 b"
  by (simp add: pow2_powi power_int_strict_increasing)

lemma pow2_less_iff: "pow2 a < pow2 b \<longleftrightarrow> a < b"
  using pow2_mono [of b a] pow2_strict_mono [of a b] by (auto simp: not_le [symmetric])

lemma ilog2_bounds:
  assumes "0 < q"
  shows "pow2 (ilog2 q) \<le> q" and "q < pow2 (ilog2 q + 1)"
proof -
  obtain a b where ab: "quotient_of q = (a, b)" by (cases "quotient_of q")
  then have b: "0 < b" and q: "q = of_int a / of_int b"
    using quotient_of_denom_pos [OF ab] quotient_of_div [OF ab] by simp_all
  from assms q b have a: "0 < a"
    by (simp add: zero_less_divide_iff)
  define la lb where "la = bitlen a" and "lb = bitlen b"
  have la1: "1 \<le> la" and lb1: "1 \<le> lb"
    using a b bitlen_eq_zero_iff [of a] bitlen_eq_zero_iff [of b] bitlen_nonneg [of a] bitlen_nonneg [of b]
    by (auto simp: la_def lb_def)
  have "2 ^ nat (la - 1) \<le> a" "a < 2 ^ nat la" "2 ^ nat (lb - 1) \<le> b" "b < 2 ^ nat lb"
    using bitlen_bounds [OF a] bitlen_bounds [OF b] by (simp_all add: la_def lb_def)
  then have "rat_of_int (2 ^ nat (la - 1)) \<le> of_int a" "rat_of_int a < of_int (2 ^ nat la)"
    "rat_of_int (2 ^ nat (lb - 1)) \<le> of_int b" "rat_of_int b < of_int (2 ^ nat lb)"
    by (simp_all only: of_int_le_iff of_int_less_iff)
  then have A: "pow2 (la - 1) \<le> of_int a" "of_int a < pow2 la"
    and B: "pow2 (lb - 1) \<le> of_int b" "of_int b < pow2 lb"
    using la1 lb1 by (simp_all add: pow2_nat)
  have bpos: "(0::rat) < of_int b" using b by simp
  have lo: "pow2 (la - lb - 1) < q"
  proof -
    have "pow2 (la - lb - 1) * of_int b < pow2 (la - lb - 1) * pow2 lb"
      using B(2) pow2_pos by simp
    also have "\<dots> = pow2 (la - 1)" by (simp flip: pow2_add)
    also have "\<dots> \<le> of_int a" by (rule A(1))
    finally show ?thesis using bpos by (simp add: q pos_less_divide_eq)
  qed
  have hi: "q < pow2 (la - lb + 1)"
  proof -
    have "of_int a < pow2 la" by (rule A(2))
    also have "\<dots> = pow2 (la - lb + 1) * pow2 (lb - 1)" by (simp flip: pow2_add)
    also have "\<dots> \<le> pow2 (la - lb + 1) * of_int b"
      using B(1) pow2_pos [of "la - lb + 1"] by simp
    finally show ?thesis using bpos by (simp add: q pos_divide_less_eq)
  qed
  have il: "ilog2 q = (if pow2 (la - lb) \<le> q then la - lb else la - lb - 1)"
    by (simp add: ilog2_def ab la_def lb_def)
  show "pow2 (ilog2 q) \<le> q" using lo by (simp add: il)
  show "q < pow2 (ilog2 q + 1)" using hi by (auto simp add: il not_le)
qed

lemma ilog2_less: "0 < q \<Longrightarrow> q < pow2 k \<Longrightarrow> ilog2 q < k"
  using ilog2_bounds(1) [of q] pow2_less_iff [of "ilog2 q" k] by simp

lemma ilog2_le: "0 < q \<Longrightarrow> q \<le> pow2 k \<Longrightarrow> ilog2 q \<le> k"
  using ilog2_less [of q "k + 1"] pow2_strict_mono [of k "k + 1"] by simp

lemma ilog2_ge: "0 < q \<Longrightarrow> pow2 k \<le> q \<Longrightarrow> k \<le> ilog2 q"
  using ilog2_bounds(2) [of q] pow2_less_iff [of k "ilog2 q + 1"] by simp

section \<open>Properties of the rounding\<close>

text \<open>
  Rounding to an integer is within one half of its argument and leaves an
  integer as it is.
\<close>

lemma round_half_even_of_int: "round_half_even (of_int i) = i"
  by (simp add: round_half_even_def)

lemma round_half_even_nonneg: "0 \<le> q \<Longrightarrow> 0 \<le> round_half_even q"
  by (simp add: round_half_even_def Let_def)

lemma round_half_even_error: "\<bar>of_int (round_half_even q) - q\<bar> \<le> 1 / 2"
proof -
  have "of_int \<lfloor>q\<rfloor> \<le> q" "q < of_int \<lfloor>q\<rfloor> + 1" by linarith+
  then show ?thesis
    by (auto simp: round_half_even_def Let_def abs_le_iff)
qed

lemma round_half_even_mono_int:
  "of_int a \<le> q \<Longrightarrow> a \<le> round_half_even q" "q \<le> of_int b \<Longrightarrow> round_half_even q \<le> b"
proof -
  assume "of_int a \<le> q"
  then have "a \<le> \<lfloor>q\<rfloor>" by (simp add: le_floor_iff)
  then show "a \<le> round_half_even q" by (simp add: round_half_even_def Let_def)
next
  assume b: "q \<le> of_int b"
  show "round_half_even q \<le> b"
  proof (cases "q = of_int b")
    case True
    then show ?thesis by (simp add: round_half_even_of_int)
  next
    case False
    with b have "q < of_int b" by simp
    then have "\<lfloor>q\<rfloor> < b" by (simp add: floor_less_iff)
    then show ?thesis by (simp add: round_half_even_def Let_def)
  qed
qed

subsection \<open>Representable values are not changed\<close>

text \<open>
  A value \<open>i * 2^x\<close> with \<open>i < 2^53\<close> and \<open>x\<close> in the exponent range is a
  double; rounding returns it. Everything from \<open>2^1024\<close> on overflows.
\<close>

lemma round_double_exact:
  assumes i: "0 < i" "i < 2 ^ 53" and x: "- 1074 \<le> x" "x \<le> 971"
  shows "round_double s (of_int i * pow2 x) = Finite s (of_int i * pow2 x)"
proof -
  define q where "q = of_int i * pow2 x"
  have qpos: "0 < q" using i pow2_pos by (simp add: q_def)
  define e where "e = max (ilog2 q - 52) (- 1074)"
  have "rat_of_int i < of_int (2 ^ 53)" using i(2) by (simp only: of_int_less_iff)
  then have "rat_of_int i < 2 ^ 53" by simp
  then have "q < pow2 53 * pow2 x"
    using pow2_pos [of x] by (simp add: q_def pow2_nat)
  then have "ilog2 q < 53 + x"
    using ilog2_less [OF qpos, of "53 + x"] by (simp add: pow2_add)
  then have ex: "e \<le> x" using x by (simp add: e_def)
  have "q / pow2 e = of_int i * pow2 (x - e)"
    by (simp add: q_def pow2_diff)
  also have "\<dots> = of_int (i * 2 ^ nat (x - e))"
    using ex by (simp add: pow2_nat)
  finally have quot: "q / pow2 e = of_int (i * 2 ^ nat (x - e))" .
  have m: "round_half_even (q / pow2 e) = i * 2 ^ nat (x - e)"
    unfolding quot by (rule round_half_even_of_int)
  have restore: "of_int (i * 2 ^ nat (x - e)) * pow2 e = q"
    using quot pow2_pos [of e] by (simp add: field_simps)
  have noov: "\<not> (971 < e \<or> (e = 971 \<and> 2 ^ 53 \<le> i * 2 ^ nat (x - e)))"
    using ex x i by auto
  have "round_double s q = Finite s q"
    using qpos noov restore
    by (simp add: round_double_def Let_def m flip: e_def)
  then show ?thesis by (simp add: q_def)
qed

lemma round_double_int:
  assumes "0 \<le> i" "i < 2 ^ 53"
  shows "round_double s (of_int i) = Finite s (of_int i)"
proof (cases "i = 0")
  case True
  then show ?thesis by (simp add: round_double_def)
next
  case False
  with assms round_double_exact [of i 0 s] show ?thesis by (simp add: pow2_0)
qed

lemma round_double_overflow:
  assumes "pow2 1024 \<le> q"
  shows "round_double s q = Infinity s"
proof -
  have qpos: "0 < q" using assms pow2_pos [of 1024] by simp
  define e where "e = max (ilog2 q - 52) (- 1074)"
  have "1024 \<le> ilog2 q" using ilog2_ge [OF qpos assms] .
  then have "971 < e" by (simp add: e_def)
  then show ?thesis using qpos by (simp add: round_double_def Let_def flip: e_def)
qed

subsection \<open>The rounded value is the nearest double\<close>

text \<open>
  The rounded significand is between \<open>2^52\<close> (for a normal result) and
  \<open>2^53\<close>, the overflow test of \<open>round_double\<close> holds exactly when the
  rounded value reaches \<open>2^1024\<close>, and a finite result is within half a
  spacing of the exact value. Every finite result has the form \<open>m * 2^e\<close> with
  \<open>m \<le> 2^53\<close>, and a value between two powers of two in the normal range stays
  between them. The double of \<open>0.1\<close> is the familiar one.
\<close>

lemma round_double_unfold:
  assumes "0 < q"
  shows "round_double s q =
     (if 971 < max (ilog2 q - 52) (- 1074) \<or>
         (max (ilog2 q - 52) (- 1074) = 971 \<and>
          2 ^ 53 \<le> round_half_even (q / pow2 (max (ilog2 q - 52) (- 1074))))
      then Infinity s
      else Finite s (of_int (round_half_even (q / pow2 (max (ilog2 q - 52) (- 1074)))) *
             pow2 (max (ilog2 q - 52) (- 1074))))"
  using assms by (simp add: round_double_def Let_def)

lemma significand_le:
  assumes "0 < q"
  shows "round_half_even (q / pow2 (max (ilog2 q - 52) (- 1074))) \<le> 2 ^ 53"
proof -
  define e where "e = max (ilog2 q - 52) (- 1074)"
  have "ilog2 q + 1 \<le> e + 53" by (simp add: e_def)
  then have "pow2 (ilog2 q + 1) \<le> pow2 (e + 53)" by (rule pow2_mono)
  with ilog2_bounds(2) [OF assms] have "q < pow2 e * pow2 53"
    by (simp add: pow2_add)
  then have "q / pow2 e < pow2 53"
    using pow2_pos [of e] by (simp add: pos_divide_less_eq mult.commute)
  then have "q / pow2 e \<le> rat_of_int (2 ^ 53)" by (simp add: pow2_nat)
  then show ?thesis unfolding e_def [symmetric] by (rule round_half_even_mono_int(2))
qed

lemma significand_ge:
  assumes "0 < q" and "- 1074 < ilog2 q - 52"
  shows "2 ^ 52 \<le> round_half_even (q / pow2 (max (ilog2 q - 52) (- 1074)))"
proof -
  define e where "e = max (ilog2 q - 52) (- 1074)"
  have e: "ilog2 q = e + 52" using assms(2) by (simp add: e_def)
  from ilog2_bounds(1) [OF assms(1)] have "pow2 e * pow2 52 \<le> q"
    by (simp add: e pow2_add)
  then have "pow2 52 \<le> q / pow2 e"
    using pow2_pos [of e] by (simp add: pos_le_divide_eq mult.commute)
  then have "rat_of_int (2 ^ 52) \<le> q / pow2 e" by (simp add: pow2_nat)
  then show ?thesis unfolding e_def [symmetric] by (rule round_half_even_mono_int(1))
qed

lemma round_double_overflow_iff:
  assumes "0 < q"
  shows "round_double s q = Infinity s \<longleftrightarrow>
     pow2 1024 \<le> of_int (round_half_even (q / pow2 (max (ilog2 q - 52) (- 1074)))) *
       pow2 (max (ilog2 q - 52) (- 1074))"
proof -
  define e where "e = max (ilog2 q - 52) (- 1074)"
  define m where "m = round_half_even (q / pow2 e)"
  have m53: "rat_of_int m \<le> pow2 53"
  proof -
    have "m \<le> 2 ^ 53" using significand_le [OF assms] by (simp add: m_def e_def)
    then have "rat_of_int m \<le> of_int (2 ^ 53)" by (simp only: of_int_le_iff)
    then show ?thesis by (simp add: pow2_nat)
  qed
  have "971 < e \<or> (e = 971 \<and> 2 ^ 53 \<le> m) \<longleftrightarrow> pow2 1024 \<le> of_int m * pow2 e"
  proof
    assume "971 < e \<or> (e = 971 \<and> 2 ^ 53 \<le> m)"
    then show "pow2 1024 \<le> of_int m * pow2 e"
    proof
      assume big: "971 < e"
      then have "- 1074 < ilog2 q - 52" by (simp add: e_def)
      from significand_ge [OF assms this] have "2 ^ 52 \<le> m" by (simp add: m_def e_def)
      then have "rat_of_int (2 ^ 52) \<le> of_int m" by (simp only: of_int_le_iff)
      then have "pow2 52 \<le> of_int m" by (simp add: pow2_nat)
      then have "pow2 52 * pow2 e \<le> of_int m * pow2 e"
        using pow2_pos [of e] by simp
      moreover have "pow2 1024 \<le> pow2 (52 + e)" using big by (intro pow2_mono) simp
      ultimately show ?thesis by (simp add: pow2_add)
    next
      assume "e = 971 \<and> 2 ^ 53 \<le> m"
      then have e: "e = 971" and "rat_of_int (2 ^ 53) \<le> of_int m" by (simp_all only: of_int_le_iff)
      then have "pow2 53 \<le> of_int m" by (simp add: pow2_nat)
      then have "pow2 53 * pow2 971 \<le> of_int m * pow2 971"
        using pow2_pos [of 971] by simp
      then show ?thesis by (simp add: e flip: pow2_add)
    qed
  next
    assume ov: "pow2 1024 \<le> of_int m * pow2 e"
    have "of_int m * pow2 e \<le> pow2 53 * pow2 e"
      using m53 pow2_pos [of e] by simp
    with ov have le: "pow2 1024 \<le> pow2 (53 + e)" by (simp add: pow2_add)
    have "971 \<le> e"
    proof (rule ccontr)
      assume "\<not> 971 \<le> e"
      then have "53 + e < 1024" by simp
      then have "pow2 (53 + e) < pow2 1024" by (rule pow2_strict_mono)
      with le show False by simp
    qed
    moreover have "2 ^ 53 \<le> m" if "e = 971"
    proof -
      from ov that have "pow2 53 * pow2 971 \<le> of_int m * pow2 971"
        by (simp flip: pow2_add)
      then have "pow2 53 \<le> of_int m" using pow2_pos [of 971] by simp
      then have "rat_of_int (2 ^ 53) \<le> of_int m" by (simp add: pow2_nat)
      then show ?thesis by (simp only: of_int_le_iff)
    qed
    ultimately show "971 < e \<or> (e = 971 \<and> 2 ^ 53 \<le> m)" by auto
  qed
  then show ?thesis
    unfolding round_double_unfold [OF assms] e_def [symmetric] m_def [symmetric] by simp
qed

lemma round_double_nearest:
  assumes "0 < q" and "round_double s q = Finite t r"
  shows "t = s \<and> \<bar>r - q\<bar> \<le> pow2 (max (ilog2 q - 52) (- 1074)) / 2"
proof -
  define e where "e = max (ilog2 q - 52) (- 1074)"
  define m where "m = round_half_even (q / pow2 e)"
  from assms(2) have r: "r = of_int m * pow2 e" and t: "t = s"
    unfolding round_double_unfold [OF assms(1)] e_def [symmetric] m_def [symmetric]
    by (simp_all split: if_splits)
  have "\<bar>rat_of_int m - q / pow2 e\<bar> \<le> 1 / 2"
    unfolding m_def by (rule round_half_even_error)
  then have "\<bar>rat_of_int m - q / pow2 e\<bar> * pow2 e \<le> 1 / 2 * pow2 e"
    using pow2_pos [of e] by (simp only: mult_le_cancel_right_pos)
  moreover have "\<bar>rat_of_int m - q / pow2 e\<bar> * pow2 e = \<bar>r - q\<bar>"
  proof -
    have "\<bar>rat_of_int m - q / pow2 e\<bar> * pow2 e = \<bar>(rat_of_int m - q / pow2 e) * pow2 e\<bar>"
      using pow2_pos [of e] by (simp add: abs_mult)
    also have "(rat_of_int m - q / pow2 e) * pow2 e = r - q"
      using pow2_pos [of e] by (simp add: r left_diff_distrib)
    finally show ?thesis .
  qed
  ultimately show ?thesis by (simp add: t e_def)
qed

lemma round_double_form:
  assumes "0 \<le> q" and "round_double s q = Finite t r"
  shows "\<exists>m e. 0 \<le> m \<and> m \<le> 2 ^ 53 \<and> - 1074 \<le> e \<and> r = of_int m * pow2 e"
proof (cases "q = 0")
  case True
  with assms(2) have "r = of_int 0 * pow2 0" by (simp add: round_double_def)
  then show ?thesis by (intro exI [of _ 0]) simp
next
  case False
  with assms(1) have q: "0 < q" by simp
  define e where "e = max (ilog2 q - 52) (- 1074)"
  define m where "m = round_half_even (q / pow2 e)"
  from assms(2) have r: "r = of_int m * pow2 e"
    unfolding round_double_unfold [OF q] e_def [symmetric] m_def [symmetric]
    by (simp split: if_splits)
  have "0 \<le> q / pow2 e" using q pow2_pos [of e] by simp
  then have "0 \<le> m" unfolding m_def by (rule round_half_even_nonneg)
  moreover have "m \<le> 2 ^ 53" using significand_le [OF q] by (simp add: m_def e_def)
  moreover have "- 1074 \<le> e" by (simp add: e_def)
  ultimately show ?thesis using r by blast
qed

lemma round_double_between:
  assumes lo: "pow2 a \<le> q" and hi: "q \<le> pow2 b" and a: "- 1021 \<le> a" and b: "b \<le> 1022"
  shows "\<exists>r. round_double s q = Finite s r \<and> pow2 a \<le> r \<and> r \<le> pow2 b"
proof -
  have q: "0 < q" using lo pow2_pos [of a] by simp
  define e where "e = max (ilog2 q - 52) (- 1074)"
  define m where "m = round_half_even (q / pow2 e)"
  have la: "a \<le> ilog2 q" using ilog2_ge [OF q lo] .
  have lb: "ilog2 q \<le> b" using ilog2_le [OF q hi] .
  have e: "e = ilog2 q - 52" using la a by (simp add: e_def)
  have "\<not> (971 < e \<or> (e = 971 \<and> 2 ^ 53 \<le> m))" using lb b by (simp add: e)
  then have fin: "round_double s q = Finite s (of_int m * pow2 e)"
    unfolding round_double_unfold [OF q] e_def [symmetric] m_def [symmetric] by simp
  have "2 ^ 52 \<le> m"
    using significand_ge [OF q] la a by (simp add: m_def e_def)
  then have "rat_of_int (2 ^ 52) \<le> of_int m" by (simp only: of_int_le_iff)
  then have "pow2 52 * pow2 e \<le> of_int m * pow2 e"
    using pow2_pos [of e] by (simp add: pow2_nat)
  then have "pow2 (ilog2 q) \<le> of_int m * pow2 e"
    by (simp add: e flip: pow2_add)
  with pow2_mono [OF la] have low: "pow2 a \<le> of_int m * pow2 e" by simp
  have high: "of_int m * pow2 e \<le> pow2 b"
  proof (cases "q = pow2 b")
    case True
    have ab: "a \<le> b" using la lb by simp
    have "round_double s (of_int (2 ^ 52) * pow2 (b - 52)) = Finite s (of_int (2 ^ 52) * pow2 (b - 52))"
      using a b ab by (intro round_double_exact) simp_all
    moreover have "rat_of_int (2 ^ 52) * pow2 (b - 52) = pow2 b"
      using pow2_add [of 52 "b - 52"] by (simp add: pow2_nat)
    ultimately have "round_double s q = Finite s q" by (simp add: True)
    with fin have "of_int m * pow2 e = q" by simp
    then show ?thesis by (simp add: True)
  next
    case False
    with hi have "q < pow2 b" by simp
    then have "ilog2 q < b" using ilog2_less [OF q] by simp
    then have "pow2 (ilog2 q + 1) \<le> pow2 b" by (intro pow2_mono) simp
    moreover have "m \<le> 2 ^ 53" using significand_le [OF q] by (simp add: m_def e_def)
    then have "rat_of_int m \<le> of_int (2 ^ 53)" by (simp only: of_int_le_iff)
    then have "of_int m * pow2 e \<le> pow2 53 * pow2 e"
      using pow2_pos [of e] by (simp add: pow2_nat)
    then have "of_int m * pow2 e \<le> pow2 (ilog2 q + 1)"
      by (simp add: e add.commute flip: pow2_add)
    ultimately show ?thesis by simp
  qed
  from fin low high show ?thesis by blast
qed

lemma round_double_tenth:
  "round_double False (1 / 10) = Finite False (3602879701896397 / 36028797018963968)"
  by code_simp

subsection \<open>Signs\<close>

text \<open>
  Products and quotients of values without a sign bit have none.
\<close>

lemma sign_clear_round_double: "0 \<le> q \<Longrightarrow> sign_clear (round_double False q)"
  using pow2_pos less_imp_le [OF pow2_pos]
  by (simp add: round_double_def Let_def round_half_even_nonneg)

lemma sign_clear_float_mul:
  "sign_clear x \<Longrightarrow> sign_clear y \<Longrightarrow> sign_clear (float_mul x y)"
  by (cases x; cases y) (simp_all add: sign_clear_round_double)

lemma sign_clear_float_truediv:
  "sign_clear x \<Longrightarrow> sign_clear y \<Longrightarrow> sign_clear (float_truediv x y)"
  by (cases x; cases y) (simp_all add: sign_clear_round_double)

lemma float_truediv_form:
  assumes "sign_clear x" "sign_clear y" "float_truediv x y = Finite s r"
  shows "\<not> s \<and> (\<exists>m e. 0 \<le> m \<and> m \<le> 2 ^ 53 \<and> - 1074 \<le> e \<and> r = of_int m * pow2 e)"
proof -
  have "sign_clear (float_truediv x y)" using assms(1,2) by (rule sign_clear_float_truediv)
  then have s: "\<not> s" by (simp add: assms(3))
  have "\<exists>m e. 0 \<le> m \<and> m \<le> 2 ^ 53 \<and> - 1074 \<le> e \<and> r = of_int m * pow2 e"
  proof (cases x)
    case (Finite sa a)
    show ?thesis
    proof (cases y)
      case (Finite sb b)
      show ?thesis
      proof (cases "b = 0")
        case True
        with assms(3) \<open>x = Finite sa a\<close> Finite show ?thesis by (simp split: if_splits)
      next
        case False
        with assms \<open>x = Finite sa a\<close> Finite have "round_double (sa \<noteq> sb) (a / b) = Finite s r"
          and "0 \<le> a / b"
          by simp_all
        then show ?thesis using round_double_form by blast
      qed
    next
      case (Infinity sb)
      with assms(3) Finite have "r = of_int 0 * pow2 0" by simp
      then show ?thesis by (intro exI [of _ 0]) simp
    next
      case NaN
      with assms(3) Finite show ?thesis by simp
    qed
  next
    case (Infinity sa)
    with assms(3) show ?thesis by (cases y) simp_all
  next
    case NaN
    with assms(3) show ?thesis by simp
  qed
  with s show ?thesis ..
qed

section \<open>Gamma values\<close>

text \<open>
  Factorials up to \<open>18!\<close> are below \<open>2^53\<close>, so \<open>gamma_rounded\<close> is exact on
  \<open>1..19\<close>; \<open>171! \<ge> 2^1024\<close>, so \<open>gamma_rounded 172\<close> is infinite.
\<close>

lemma fact_18_less: "(fact 18 :: nat) < 2 ^ 53"
  by (simp add: fact_numeral)

lemma nat_small:
  assumes "m \<le> (fact 18 :: nat)"
  shows "int m < 2 ^ 53"
proof -
  have "m < 2 ^ 53" using assms fact_18_less by (rule le_less_trans)
  then have "int m < int (2 ^ 53)" by (simp only: of_nat_less_iff)
  then show ?thesis by simp
qed

lemma round_double_nat:
  assumes "m \<le> (fact 18 :: nat)"
  shows "round_double s (of_nat m) = Finite s (of_nat m)"
  using round_double_int [of "int m" s] nat_small [OF assms] by simp

lemma round_double_fact:
  assumes "m \<le> 18"
  shows "round_double s (fact m) = Finite s (fact m)"
proof -
  have "(fact m :: nat) \<le> fact 18" using assms by (rule fact_mono)
  from round_double_nat [OF this, of s] show ?thesis by simp
qed

lemma gamma_rounded_exact:
  assumes "1 \<le> k" "k \<le> 19"
  shows "gamma_rounded k = Finite False (fact (nat (k - 1)))"
proof -
  have "nat (k - 1) \<le> 18" using assms by simp
  then show ?thesis using assms(1) by (simp add: gamma_rounded_def round_double_fact)
qed

lemma gamma_exact_rounded: "K \<le> 19 \<Longrightarrow> gamma_exact gamma_rounded K"
  by (simp add: gamma_exact_def gamma_rounded_exact)

lemma gamma_exact_mono: "gamma_exact gamma K \<Longrightarrow> K' \<le> K \<Longrightarrow> gamma_exact gamma K'"
  by (simp add: gamma_exact_def)

lemma gamma_exactD:
  "gamma_exact gamma K \<Longrightarrow> 1 \<le> k \<Longrightarrow> k \<le> K \<Longrightarrow> gamma k = Finite False (fact (nat (k - 1)))"
  by (simp add: gamma_exact_def)

lemma fact_171_overflow: "pow2 1024 \<le> fact 171"
proof -
  have "(2::nat) ^ 1024 \<le> fact 171" by (simp add: fact_numeral)
  then have "rat_of_nat (2 ^ 1024) \<le> of_nat (fact 171)" by (simp only: of_nat_le_iff)
  then show ?thesis by (simp add: pow2_def)
qed

lemma gamma_rounded_172: "gamma_rounded 172 = Infinity False"
  using round_double_overflow [OF fact_171_overflow] by (simp add: gamma_rounded_def)

lemma gamma_positive_rounded: "gamma_positive gamma_rounded"
  by (simp add: gamma_positive_def gamma_rounded_def sign_clear_round_double)

lemma fact_57_le: "(fact 57 :: rat) \<le> pow2 300"
  by (simp add: fact_numeral pow2_def)

lemma gamma_rounded_between:
  assumes "1 \<le> k" "k \<le> 58"
  shows "\<exists>r. gamma_rounded k = Finite False r \<and> pow2 0 \<le> r \<and> r \<le> pow2 300"
proof -
  have "(fact (nat (k - 1)) :: rat) \<le> fact 57"
    using assms by (intro fact_mono) simp
  with fact_57_le have "(fact (nat (k - 1)) :: rat) \<le> pow2 300" by simp
  moreover have "pow2 0 \<le> (fact (nat (k - 1)) :: rat)" by (simp add: pow2_0 fact_ge_1)
  ultimately show ?thesis
    using assms(1) round_double_between [of 0 "fact (nat (k - 1))" 300 False]
    by (simp add: gamma_rounded_def)
qed

section \<open>The yielded term\<close>

text \<open>
  With exact gamma values below \<open>2^53\<close> the product and the quotient of the
  gamma ratio are exact, and the term is the reciprocal of the binomial
  coefficient. A term is positive whenever it is yielded. An odd integer above
  \<open>2^53\<close> is not a double, so its reciprocal is never yielded.
\<close>

lemma tr_yield_positive:
  assumes "gamma_positive gamma" "1 \<le> d" "1 \<le> n" "tr_yield gamma d n = Inr v"
  shows "0 < v"
proof -
  define r where "r = float_truediv (gamma (n + d)) (float_mul (gamma n) (gamma (d + 1)))"
  have "sign_clear (gamma (n + d))" "sign_clear (gamma n)" "sign_clear (gamma (d + 1))"
    using assms(1-3) by (simp_all add: gamma_positive_def)
  then have "sign_clear r"
    unfolding r_def by (intro sign_clear_float_truediv sign_clear_float_mul)
  moreover have "(case Fraction r of Inl e \<Rightarrow> Inl e | Inr q \<Rightarrow> one_over q) = Inr v"
    using assms(4) by (simp add: tr_yield_def r_def)
  ultimately show ?thesis
    by (cases r) (auto simp: one_over_def split: if_splits)
qed

lemma tr_yield_exact:
  assumes d: "0 \<le> d" and n: "1 \<le> n" and nd: "n + d \<le> 19"
    and g: "gamma_exact gamma (n + d)"
  shows "tr_yield gamma d n = Inr (1 / of_nat (nat (n + d - 1) choose nat d))"
proof -
  define M D where "M = nat (n + d - 1)" and "D = nat d"
  define P C where "P = fact (M - D) * (fact D :: nat)" and "C = M choose D"
  have DM: "D \<le> M" and MD: "M - D = nat (n - 1)" and M18: "M \<le> 18"
    using d n nd by (simp_all add: M_def D_def)
  have g1: "gamma (n + d) = Finite False (fact M)"
    using gamma_exactD [OF g, of "n + d"] d n by (simp add: M_def)
  have g2: "gamma n = Finite False (fact (M - D))"
    using gamma_exactD [OF g, of n] d n by (simp add: MD)
  have g3: "gamma (d + 1) = Finite False (fact D)"
    using gamma_exactD [OF g, of "d + 1"] d n by (simp add: D_def)
  have split: "P * C = fact M"
    using binomial_fact_lemma [OF DM] by (simp add: P_def C_def mult_ac)
  have cpos: "0 < C" using DM by (simp add: C_def)
  have ppos: "0 < P" by (simp add: P_def)
  have "fact M \<le> (fact 18 :: nat)" using M18 by (rule fact_mono)
  moreover have "P \<le> fact M" "C \<le> fact M"
    using cpos ppos by (simp_all flip: split)
  ultimately have psmall: "P \<le> fact 18" and csmall: "C \<le> fact 18"
    by simp_all
  have Prat: "rat_of_nat P = fact (M - D) * fact D"
    by (simp add: P_def)
  have prod: "float_mul (gamma n) (gamma (d + 1)) = Finite False (of_nat P)"
    using round_double_nat [OF psmall, of False] by (simp add: g2 g3 Prat)
  have "rat_of_nat (fact M) = of_nat P * of_nat C"
    unfolding of_nat_mult [symmetric] split ..
  then have quot: "fact M / rat_of_nat P = of_nat C"
    using ppos by (simp add: field_simps)
  have "float_truediv (gamma (n + d)) (float_mul (gamma n) (gamma (d + 1))) =
      Finite False (of_nat C)"
    using round_double_nat [OF csmall, of False] ppos
    unfolding g1 prod by (simp add: quot)
  then have "tr_yield gamma d n = Inr (1 / of_nat C)"
    using cpos by (simp add: tr_yield_def one_over_def)
  then show ?thesis by (simp add: C_def M_def D_def)
qed

lemma tr_yield_171: "tr_yield gamma_rounded 171 1 = Inl ValueError"
proof -
  have "gamma_rounded 1 = Finite False 1"
    using gamma_rounded_exact [of 1] by simp
  then show ?thesis
    by (simp add: tr_yield_def gamma_rounded_172)
qed

lemma dyadic_not_big_odd:
  assumes eq: "rat_of_int m * pow2 e = of_int c"
    and m: "0 \<le> m" "m \<le> 2 ^ 53" and c: "odd c" "2 ^ 53 < c"
  shows False
proof (cases "0 \<le> e")
  case True
  from eq True have "rat_of_int (m * 2 ^ nat e) = of_int c" by (simp add: pow2_nat)
  then have mc: "m * 2 ^ nat e = c" by (simp only: of_int_eq_iff)
  with c(1) have "nat e = 0" by (cases "nat e") auto
  with mc m(2) c(2) show False by simp
next
  case False
  then have "pow2 e = 1 / 2 ^ nat (- e)" by (simp add: pow2_def)
  with eq have "rat_of_int m = of_int (c * 2 ^ nat (- e))" by (simp add: field_simps)
  then have "m = c * 2 ^ nat (- e)" by (simp only: of_int_eq_iff)
  moreover have "c * 1 \<le> c * 2 ^ nat (- e)"
    using c(2) by (intro mult_left_mono) simp_all
  ultimately show False using m(2) c(2) by simp
qed

lemma tr_yield_inexact:
  assumes "gamma_positive gamma" "1 \<le> d" "1 \<le> n" and c: "odd c" "2 ^ 53 < c"
  shows "tr_yield gamma d n \<noteq> Inr (1 / of_int c)"
proof
  assume y: "tr_yield gamma d n = Inr (1 / of_int c)"
  define r where "r = float_truediv (gamma (n + d)) (float_mul (gamma n) (gamma (d + 1)))"
  have sc: "sign_clear (gamma (n + d))" "sign_clear (float_mul (gamma n) (gamma (d + 1)))"
    using assms(1-3) by (simp_all add: gamma_positive_def sign_clear_float_mul)
  from y obtain s q where r: "r = Finite s q" and q: "one_over (if s then - q else q) = Inr (1 / of_int c)"
    unfolding tr_yield_def r_def [symmetric] by (cases r) (auto split: sum.splits)
  from float_truediv_form [OF sc r [unfolded r_def]] obtain m e
    where s: "\<not> s" and m: "0 \<le> m" "m \<le> 2 ^ 53" and qm: "q = of_int m * pow2 e"
    by blast
  from q s have "1 / q = 1 / rat_of_int c" by (simp add: one_over_def split: if_splits)
  then have "q = of_int c" using c(2) by (simp add: field_simps)
  with qm have "rat_of_int m * pow2 e = of_int c" by simp
  from dyadic_not_big_odd [OF this m c] show False .
qed

lemma tr_yield_reciprocal_of_double:
  assumes "gamma_positive gamma" "1 \<le> d" "1 \<le> n" "tr_yield gamma d n = Inr v"
  shows "\<exists>m e. 0 < m \<and> m \<le> 2 ^ 53 \<and> - 1074 \<le> e \<and>
     float_truediv (gamma (n + d)) (float_mul (gamma n) (gamma (d + 1))) =
       Finite False (of_int m * pow2 e) \<and>
     v * (of_int m * pow2 e) = 1"
proof -
  define r where "r = float_truediv (gamma (n + d)) (float_mul (gamma n) (gamma (d + 1)))"
  have sc: "sign_clear (gamma (n + d))" "sign_clear (float_mul (gamma n) (gamma (d + 1)))"
    using assms(1-3) by (simp_all add: gamma_positive_def sign_clear_float_mul)
  from assms(4) obtain s q where r: "r = Finite s q" and q: "one_over (if s then - q else q) = Inr v"
    unfolding tr_yield_def r_def [symmetric] by (cases r) (auto split: sum.splits)
  from float_truediv_form [OF sc r [unfolded r_def]] obtain m e
    where s: "\<not> s" and m: "0 \<le> m" "m \<le> 2 ^ 53" and e: "- 1074 \<le> e"
      and qm: "q = of_int m * pow2 e"
    by blast
  from q s have q0: "q \<noteq> 0" and v: "v = 1 / q"
    by (auto simp: one_over_def split: if_splits)
  from q0 qm m(1) have mpos: "0 < m" by (cases "m = 0") simp_all
  from v q0 have one: "v * (of_int m * pow2 e) = 1" by (simp add: qm)
  from r s have "float_truediv (gamma (n + d)) (float_mul (gamma n) (gamma (d + 1))) =
      Finite False (of_int m * pow2 e)"
    by (simp add: r_def qm)
  with mpos m(2) e one show ?thesis
    by (intro exI [of _ m] exI [of _ e]) simp
qed

lemma tr_yield_rounded_succeeds:
  assumes "1 \<le> n" "0 \<le> d" "n + d \<le> 58"
  shows "\<exists>v. tr_yield gamma_rounded d n = Inr v"
proof -
  obtain r1 where g1: "gamma_rounded (n + d) = Finite False r1" and r1: "pow2 0 \<le> r1" "r1 \<le> pow2 300"
    using gamma_rounded_between [of "n + d"] assms by auto
  obtain r2 where g2: "gamma_rounded n = Finite False r2" and r2: "pow2 0 \<le> r2" "r2 \<le> pow2 300"
    using gamma_rounded_between [of n] assms by auto
  obtain r3 where g3: "gamma_rounded (d + 1) = Finite False r3" and r3: "pow2 0 \<le> r3" "r3 \<le> pow2 300"
    using gamma_rounded_between [of "d + 1"] assms by auto
  have pos: "0 < r1" "0 < r2" "0 < r3"
    using r1(1) r2(1) r3(1) by (simp_all add: pow2_0)
  have "pow2 0 * pow2 0 \<le> r2 * r3"
    using r2(1) r3(1) pow2_pos [of 0] by (intro mult_mono) simp_all
  moreover have "r2 * r3 \<le> pow2 300 * pow2 300"
    using r2(2) r3(2) pos by (intro mult_mono) simp_all
  ultimately have "pow2 0 \<le> r2 * r3" "r2 * r3 \<le> pow2 600"
    by (simp_all flip: pow2_add)
  from round_double_between [OF this, of False] obtain p
    where prod: "float_mul (gamma_rounded n) (gamma_rounded (d + 1)) = Finite False p"
      and p: "pow2 0 \<le> p" "p \<le> pow2 600"
    by (auto simp: g2 g3)
  have ppos: "0 < p" using p(1) by (simp add: pow2_0)
  have "pow2 0 / pow2 600 \<le> r1 / p"
    using r1(1) p(2) ppos pow2_pos [of 0] by (intro frac_le) simp_all
  moreover have "r1 / p \<le> pow2 300 / pow2 0"
    using r1(2) p(1) pos pow2_pos [of 0] by (intro frac_le) simp_all
  ultimately have "pow2 (- 600) \<le> r1 / p" "r1 / p \<le> pow2 300"
    by (simp_all flip: pow2_diff)
  from round_double_between [OF this, of False] obtain r
    where "round_double False (r1 / p) = Finite False r" and r: "pow2 (- 600) \<le> r"
    by auto
  then have "float_truediv (gamma_rounded (n + d)) (float_mul (gamma_rounded n) (gamma_rounded (d + 1))) =
      Finite False r"
    using ppos by (simp add: g1 prod)
  moreover have "r \<noteq> 0" using r pow2_pos [of "- 600"] by auto
  ultimately show ?thesis by (simp add: tr_yield_def one_over_def)
qed

section \<open>The first values of a generator\<close>

text \<open>
  The first \<open>k\<close> values of \<^verbatim>\<open>inv_tr_nums(d)\<close> are the \<^verbatim>\<open>yield\<close> expression at
  \<open>n = 1, \<dots>, k\<close>; those of \<^verbatim>\<open>inv_gap_nums(d)\<close> are their partial sums from
  \<open>-1\<close>, and an exception of the inner generator is the exception of the outer.
\<close>

lemma tr_next_created: "tr_next gamma (Tr_created d) = tr_next gamma (Tr_suspended d 0)"
  by simp

lemma islice_tr_created:
  "islice (tr_next gamma) (Tr_created d) (Suc k) = islice (tr_next gamma) (Tr_suspended d 0) (Suc k)"
  by simp

lemma tr_next_suspended:
  "tr_next gamma (Tr_suspended d n) =
     (case tr_yield gamma d (n + 1) of Inl e \<Rightarrow> Inl e | Inr v \<Rightarrow> Inr (v, Tr_suspended d (n + 1)))"
  by (simp add: Let_def)

lemma islice_tr_suspendedD:
  "islice (tr_next gamma) (Tr_suspended d n) k = Inr (vs, g) \<Longrightarrow>
     length vs = k \<and> g = Tr_suspended d (n + int k) \<and>
     (\<forall>j<k. tr_yield gamma d (n + 1 + int j) = Inr (vs ! j))"
proof (induction k arbitrary: n vs g)
  case 0
  then show ?case by simp
next
  case (Suc k)
  from Suc.prems obtain v where v: "tr_yield gamma d (n + 1) = Inr v"
    by (auto simp: tr_next_suspended simp del: tr_next.simps split: sum.splits)
  with Suc.prems obtain ws where ws: "islice (tr_next gamma) (Tr_suspended d (n + 1)) k = Inr (ws, g)"
    and vs: "vs = v # ws"
    by (auto simp: tr_next_suspended simp del: tr_next.simps split: sum.splits)
  from Suc.IH [OF ws] have IH: "length ws = k" "g = Tr_suspended d (n + 1 + int k)"
    "\<And>j. j < k \<Longrightarrow> tr_yield gamma d (n + 1 + 1 + int j) = Inr (ws ! j)"
    by simp_all
  have "tr_yield gamma d (n + 1 + int j) = Inr (vs ! j)" if "j < Suc k" for j
  proof (cases j)
    case 0
    then show ?thesis by (simp add: v vs)
  next
    case (Suc i)
    with that IH(3) [of i] show ?thesis by (simp add: vs add.assoc)
  qed
  with IH(1,2) show ?case by (simp add: vs)
qed

lemma islice_tr_suspendedI:
  "(\<And>j. j < k \<Longrightarrow> tr_yield gamma d (n + 1 + int j) = Inr (f (n + 1 + int j))) \<Longrightarrow>
   islice (tr_next gamma) (Tr_suspended d n) k =
     Inr (map (\<lambda>j. f (n + 1 + int j)) [0..<k], Tr_suspended d (n + int k))"
proof (induction k arbitrary: n)
  case 0
  then show ?case by simp
next
  case (Suc k)
  have first: "tr_yield gamma d (n + 1) = Inr (f (n + 1))"
    using Suc.prems [of 0] by simp
  have rest: "islice (tr_next gamma) (Tr_suspended d (n + 1)) k =
      Inr (map (\<lambda>j. f (n + 1 + 1 + int j)) [0..<k], Tr_suspended d (n + 1 + int k))"
  proof (rule Suc.IH)
    fix j assume "j < k"
    then show "tr_yield gamma d (n + 1 + 1 + int j) = Inr (f (n + 1 + 1 + int j))"
      using Suc.prems [of "Suc j"] by (simp add: algebra_simps)
  qed
  have "map (\<lambda>j. f (n + 1 + int j)) [0..<Suc k] =
      f (n + 1) # map (\<lambda>j. f (n + 1 + 1 + int j)) [0..<k]"
    by (simp add: upt_conv_Cons map_Suc_upt [symmetric] algebra_simps del: upt_Suc)
  then show ?case
    using first rest by (simp add: tr_next_suspended algebra_simps del: upt_Suc tr_next.simps)
qed

lemma islice_inv_tr_numsD:
  assumes "islice (tr_next gamma) (inv_tr_nums d) k = Inr (vs, g)"
  shows "length vs = k" and "0 < k \<Longrightarrow> g = Tr_suspended d (int k)"
    and "\<And>j. j < k \<Longrightarrow> tr_yield gamma d (1 + int j) = Inr (vs ! j)"
proof -
  have "length vs = k \<and> (0 < k \<longrightarrow> g = Tr_suspended d (int k)) \<and>
      (\<forall>j<k. tr_yield gamma d (1 + int j) = Inr (vs ! j))"
  proof (cases k)
    case 0
    with assms show ?thesis by simp
  next
    case (Suc i)
    with assms have "islice (tr_next gamma) (Tr_suspended d 0) k = Inr (vs, g)"
      by (simp add: inv_tr_nums_def)
    from islice_tr_suspendedD [OF this] show ?thesis by simp
  qed
  then show "length vs = k" and "0 < k \<Longrightarrow> g = Tr_suspended d (int k)"
    and "\<And>j. j < k \<Longrightarrow> tr_yield gamma d (1 + int j) = Inr (vs ! j)"
    by simp_all
qed

lemma islice_inv_tr_numsI:
  assumes "\<And>j. j < k \<Longrightarrow> tr_yield gamma d (1 + int j) = Inr (f (1 + int j))" and "0 < k"
  shows "islice (tr_next gamma) (inv_tr_nums d) k =
     Inr (map (\<lambda>j. f (1 + int j)) [0..<k], Tr_suspended d (int k))"
proof -
  from assms(2) obtain i where k: "k = Suc i" by (cases k) simp_all
  have "islice (tr_next gamma) (Tr_suspended d 0) k =
     Inr (map (\<lambda>j. f (0 + 1 + int j)) [0..<k], Tr_suspended d (0 + int k))"
    by (rule islice_tr_suspendedI) (simp add: assms(1))
  then show ?thesis
    unfolding inv_tr_nums_def k islice_tr_created by simp
qed

lemma islice_prefix:
  "islice nxt g (j + m) = Inr (vs, g') \<Longrightarrow> \<exists>g''. islice nxt g j = Inr (take j vs, g'')"
proof (induction j arbitrary: g vs)
  case 0
  then show ?case by simp
next
  case (Suc j)
  from Suc.prems obtain v g1 ws where step: "nxt g = Inr (v, g1)"
    and rest: "islice nxt g1 (j + m) = Inr (ws, g')" and vs: "vs = v # ws"
    by (auto split: sum.splits)
  from Suc.IH [OF rest] obtain g'' where "islice nxt g1 j = Inr (take j ws, g'')" ..
  then show ?case by (simp add: step vs)
qed

lemma inv_tr_nums_frames:
  assumes "islice (tr_next gamma) (inv_tr_nums d) k = Inr (vs, g)" and "j < k"
  shows "islice (tr_next gamma) (inv_tr_nums d) (Suc j) = Inr (take (Suc j) vs, Tr_suspended d (int j + 1))"
proof -
  from assms(2) obtain m where "k = Suc j + m" by (metis less_iff_Suc_add add_Suc)
  with assms(1) obtain g'' where p: "islice (tr_next gamma) (inv_tr_nums d) (Suc j) = Inr (take (Suc j) vs, g'')"
    using islice_prefix [of "tr_next gamma" "inv_tr_nums d" "Suc j" m vs g] by auto
  from islice_inv_tr_numsD(2) [OF p] have "g'' = Tr_suspended d (int (Suc j))" by simp
  with p show ?thesis by (simp add: add.commute)
qed

lemma gap_next_suspended:
  "gap_next gamma (Gap_suspended x g) =
     (case tr_next gamma g of Inl e \<Rightarrow> Inl e | Inr (v, g') \<Rightarrow> Inr (x + v, Gap_suspended (x + v) g'))"
  by (simp add: Let_def split: sum.splits prod.splits)

lemma gap_next_created:
  "gap_next gamma (Gap_created d) = gap_next gamma (Gap_suspended (- 1) (inv_tr_nums d))"
  by (simp add: Let_def split: sum.splits prod.splits)

lemma running_sums_Cons:
  "map (\<lambda>j. foldl (+) x (take (Suc j) (v # ts))) [0..<Suc k] =
     (x + v) # map (\<lambda>j. foldl (+) (x + v) (take (Suc j) ts)) [0..<k]"
  by (simp add: upt_conv_Cons map_Suc_upt [symmetric] del: upt_Suc)

lemma islice_gap_suspended:
  "islice (gap_next gamma) (Gap_suspended x g) k =
     (case islice (tr_next gamma) g k of
        Inl e \<Rightarrow> Inl e
      | Inr (ts, g') \<Rightarrow>
          Inr (map (\<lambda>j. foldl (+) x (take (Suc j) ts)) [0..<k], Gap_suspended (foldl (+) x ts) g'))"
proof (induction k arbitrary: x g)
  case 0
  show ?case by simp
next
  case (Suc k)
  show ?case
  proof (cases "tr_next gamma g")
    case (Inl e)
    then show ?thesis by (simp add: gap_next_suspended del: gap_next.simps)
  next
    case (Inr p)
    obtain v g1 where p: "p = (v, g1)" by (cases p)
    show ?thesis
    proof (cases "islice (tr_next gamma) g1 k")
      case (Inl e)
      then show ?thesis
        using Inr p Suc.IH [of "x + v" g1]
        by (simp add: gap_next_suspended del: gap_next.simps upt_Suc)
    next
      case (Inr r)
      obtain ts g2 where r: "r = (ts, g2)" by (cases r)
      show ?thesis
        using \<open>tr_next gamma g = Inr p\<close> p Inr r Suc.IH [of "x + v" g1] running_sums_Cons [of x v ts k]
        by (simp add: gap_next_suspended del: gap_next.simps upt_Suc)
    qed
  qed
qed

lemma islice_inv_gap_nums:
  assumes "0 < k"
  shows "islice (gap_next gamma) (inv_gap_nums d) k =
     (case islice (tr_next gamma) (inv_tr_nums d) k of
        Inl e \<Rightarrow> Inl e
      | Inr (ts, g') \<Rightarrow>
          Inr (map (\<lambda>j. foldl (+) (- 1) (take (Suc j) ts)) [0..<k],
               Gap_suspended (foldl (+) (- 1) ts) g'))"
proof -
  from assms obtain i where k: "k = Suc i" by (cases k) simp_all
  have "islice (gap_next gamma) (inv_gap_nums d) k =
      islice (gap_next gamma) (Gap_suspended (- 1) (inv_tr_nums d)) k"
    unfolding k inv_gap_nums_def islice.simps gap_next_created ..
  then show ?thesis by (simp only: islice_gap_suspended)
qed

lemma foldl_add_sum_list: "foldl (+) x ts = x + sum_list (ts :: rat list)"
  by (induction ts arbitrary: x) (simp_all add: add.assoc)

lemma islice_inv_tr_nums_exact:
  assumes d: "0 \<le> d" and k: "0 < k" and kd: "int k + d \<le> 19"
    and g: "gamma_exact gamma (int k + d)"
  shows "islice (tr_next gamma) (inv_tr_nums d) k =
     Inr (map (\<lambda>j. 1 / of_nat (nat (int j + d) choose nat d)) [0..<k], Tr_suspended d (int k))"
proof -
  define f where "f i = 1 / rat_of_nat (nat (i + d - 1) choose nat d)" for i
  have "tr_yield gamma d (1 + int j) = Inr (f (1 + int j))" if "j < k" for j
  proof -
    have "gamma_exact gamma (1 + int j + d)"
      using g that by (auto intro: gamma_exact_mono)
    then show ?thesis
      unfolding f_def using d kd that by (intro tr_yield_exact) simp_all
  qed
  from islice_inv_tr_numsI [of k gamma d f, OF this k]
  show ?thesis by (simp add: f_def)
qed

lemma islice_inv_gap_nums_exact:
  assumes "0 \<le> d" "0 < k" "int k + d \<le> 19" "gamma_exact gamma (int k + d)"
  shows "\<exists>vs x. islice (gap_next gamma) (inv_gap_nums d) k =
      Inr (vs, Gap_suspended x (Tr_suspended d (int k))) \<and> length vs = k"
  using islice_inv_tr_nums_exact [OF assms] assms(2) by (simp add: islice_inv_gap_nums)

lemma islice_rounded_succeeds:
  assumes "0 \<le> d" "0 < k" "int k + d \<le> 58"
  shows "\<exists>vs. islice (tr_next gamma_rounded) (inv_tr_nums d) k = Inr (vs, Tr_suspended d (int k))"
proof -
  define f where "f i = projr (tr_yield gamma_rounded d i)" for i
  have "tr_yield gamma_rounded d (1 + int j) = Inr (f (1 + int j))" if "j < k" for j
    using tr_yield_rounded_succeeds [of "1 + int j" d] assms that by (auto simp: f_def)
  from islice_inv_tr_numsI [of k gamma_rounded d f, OF this assms(2)] show ?thesis by blast
qed

lemma islice_tr_positive:
  assumes "gamma_positive gamma" "1 \<le> d" "islice (tr_next gamma) (inv_tr_nums d) k = Inr (ts, g)"
    and "j < k"
  shows "0 < ts ! j"
  using islice_inv_tr_numsD(3) [OF assms(3,4)] assms(1,2)
  by (intro tr_yield_positive [of gamma d "1 + int j"]) simp_all

lemma islice_gap_increasing:
  assumes "gamma_positive gamma" "1 \<le> d"
    and "islice (gap_next gamma) (inv_gap_nums d) k = Inr (vs, g')" and "Suc j < k"
  shows "vs ! j < vs ! Suc j"
proof -
  have k: "0 < k" using assms(4) by simp
  from assms(3) obtain ts g where tr: "islice (tr_next gamma) (inv_tr_nums d) k = Inr (ts, g)"
    and vs: "vs = map (\<lambda>j. foldl (+) (- 1) (take (Suc j) ts)) [0..<k]"
    unfolding islice_inv_gap_nums [OF k] by (auto split: sum.splits)
  have len: "length ts = k" using islice_inv_tr_numsD(1) [OF tr] .
  have pos: "0 < ts ! Suc j" using islice_tr_positive [OF assms(1,2) tr assms(4)] .
  have "take (Suc (Suc j)) ts = take (Suc j) ts @ [ts ! Suc j]"
    using assms(4) len by (simp add: take_Suc_conv_app_nth)
  then have "foldl (+) (- 1) (take (Suc (Suc j)) ts) = foldl (+) (- 1) (take (Suc j) ts) + ts ! Suc j"
    by simp
  then show ?thesis using pos assms(4) by (simp add: vs)
qed

subsection \<open>Particular values\<close>

lemma choose_values: "(2::nat) choose 2 = 1" "(3::nat) choose 2 = 3" "(4::nat) choose 2 = 6"
  by (simp_all add: choose_two)

lemma upt_3: "[0..<3] = [0, 1, 2]"
  by (simp add: upt_rec)

lemma first_three_tr:
  assumes "gamma_exact gamma 5"
  shows "islice (tr_next gamma) (inv_tr_nums 2) 3 = Inr ([1, 1 / 3, 1 / 6], Tr_suspended 2 3)"
  using islice_inv_tr_nums_exact [of 2 3 gamma] assms
  by (simp add: upt_3 choose_values)

lemma first_three_gap:
  assumes "gamma_exact gamma 5"
  shows "islice (gap_next gamma) (inv_gap_nums 2) 3 =
     Inr ([0, 1 / 3, 1 / 2], Gap_suspended (1 / 2) (Tr_suspended 2 3))"
  using first_three_tr [OF assms] by (simp add: islice_inv_gap_nums upt_3)

lemma first_d1:
  assumes "gamma_exact gamma 2"
  shows "islice (tr_next gamma) (inv_tr_nums 1) 1 = Inr ([1], Tr_suspended 1 1)"
  using islice_inv_tr_nums_exact [of 1 1 gamma] assms by simp

lemma tr_yield_rounded_2:
  "tr_yield gamma_rounded 2 1 = Inr 1" "tr_yield gamma_rounded 2 2 = Inr (1 / 3)"
proof -
  have g: "gamma_exact gamma_rounded 5" by (simp add: gamma_exact_rounded)
  from islice_inv_tr_numsD(3) [OF first_three_tr [OF g], of 0]
  show "tr_yield gamma_rounded 2 1 = Inr 1" by simp
  from islice_inv_tr_numsD(3) [OF first_three_tr [OF g], of 1]
  show "tr_yield gamma_rounded 2 2 = Inr (1 / 3)" by simp
qed

lemma choose_57_32: "(57 choose 32 :: nat) = 9929472283517787"
proof -
  have "rat_of_nat (57 choose 32) = of_nat 9929472283517787"
    by (simp add: binomial_fact fact_numeral)
  then show ?thesis by (simp only: of_nat_eq_iff)
qed

lemma inexact_26th:
  "case islice (tr_next gamma_rounded) (inv_tr_nums 32) 26 of
     Inl e \<Rightarrow> False
   | Inr (vs, g) \<Rightarrow> length vs = 26 \<and> vs ! 25 \<noteq> 1 / of_nat (57 choose 32)"
proof -
  obtain vs where vs: "islice (tr_next gamma_rounded) (inv_tr_nums 32) 26 = Inr (vs, Tr_suspended 32 (int 26))"
    using islice_rounded_succeeds [of 32 26] by auto
  have "tr_yield gamma_rounded 32 (1 + int 25) = Inr (vs ! 25)"
    using islice_inv_tr_numsD(3) [OF vs, of 25] by simp
  moreover have "tr_yield gamma_rounded 32 (1 + int 25) \<noteq> Inr (1 / of_int 9929472283517787)"
    using gamma_positive_rounded by (intro tr_yield_inexact) simp_all
  ultimately have "vs ! 25 \<noteq> 1 / of_nat (57 choose 32)"
    by (auto simp: choose_57_32)
  then show ?thesis using islice_inv_tr_numsD(1) [OF vs] by (simp add: vs)
qed

subsection \<open>The sum for \<open>d = 2\<close> telescopes\<close>

lemma two_choose: "2 * (Suc (Suc m) choose 2) = Suc (Suc m) * Suc m"
  by (simp add: choose_two)

lemma choose_2_rat: "rat_of_nat (Suc (Suc m) choose 2) = of_nat (Suc (Suc m)) * of_nat (Suc m) / 2"
proof -
  have "rat_of_nat (2 * (Suc (Suc m) choose 2)) = of_nat (Suc (Suc m) * Suc m)"
    by (simp only: two_choose)
  then show ?thesis by (simp add: field_simps)
qed

lemma telescope_step:
  fixes x :: rat
  assumes "0 \<le> x"
  shows "2 - 2 / (x + 1) + 2 / ((x + 2) * (x + 1)) = 2 - 2 / (x + 1 + 1)"
proof -
  define a where "a = x + 1"
  have a: "a \<noteq> 0" "a + 1 \<noteq> 0" using assms by (simp_all add: a_def)
  have "2 / a - 2 / (a + 1) = (2 * (a + 1) - 2 * a) / (a * (a + 1))"
    using a by (rule diff_frac_eq)
  also have "\<dots> = 2 / ((a + 1) * a)"
    by (simp add: algebra_simps)
  finally have "2 - 2 / a + 2 / ((a + 1) * a) = 2 - 2 / (a + 1)"
    by simp
  moreover have "x + 2 = a + 1" by (simp add: a_def)
  ultimately show ?thesis unfolding a_def by (simp only:)
qed

lemma telescope:
  "sum_list (map (\<lambda>j. 1 / rat_of_nat (nat (int j + 2) choose 2)) [0..<k]) = 2 - 2 / (of_nat k + 1)"
proof (induction k)
  case 0
  show ?case by simp
next
  case (Suc k)
  define S where "S = sum_list (map (\<lambda>j. 1 / rat_of_nat (nat (int j + 2) choose 2)) [0..<k])"
  define x where "x = rat_of_nat k"
  have "nat (int k + 2) = Suc (Suc k)" by simp
  then have "1 / rat_of_nat (nat (int k + 2) choose 2) = 2 / (of_nat (Suc (Suc k)) * of_nat (Suc k))"
    by (simp add: choose_2_rat del: of_nat_Suc)
  also have "\<dots> = 2 / ((x + 2) * (x + 1))"
    by (simp add: x_def algebra_simps)
  finally have t: "1 / rat_of_nat (nat (int k + 2) choose 2) = 2 / ((x + 2) * (x + 1))" .
  have "sum_list (map (\<lambda>j. 1 / rat_of_nat (nat (int j + 2) choose 2)) [0..<Suc k]) =
      S + 2 / ((x + 2) * (x + 1))"
    by (simp add: S_def t)
  also have "S = 2 - 2 / (x + 1)"
    using Suc.IH by (simp add: S_def x_def)
  also have "2 - 2 / (x + 1) + 2 / ((x + 2) * (x + 1)) = 2 - 2 / (x + 1 + 1)"
    by (rule telescope_step) (simp add: x_def)
  also have "x + 1 = of_nat (Suc k)" by (simp add: x_def)
  finally show ?case .
qed

section \<open>Two generator objects\<close>

text \<open>
  Each object yields what \<^verbatim>\<open>islice\<close> yields on it alone, whatever the
  interleaving.
\<close>

lemma pull_two_islice:
  "pull_two nxt pulls g1 g2 = Inr (vs1, vs2) \<Longrightarrow>
     (\<exists>g1'. islice nxt g1 (length (filter (\<lambda>b. b) pulls)) = Inr (vs1, g1')) \<and>
     (\<exists>g2'. islice nxt g2 (length (filter Not pulls)) = Inr (vs2, g2'))"
proof (induction pulls arbitrary: g1 g2 vs1 vs2)
  case Nil
  then show ?case by simp
next
  case (Cons b pulls)
  show ?case
  proof (cases b)
    case True
    with Cons.prems obtain v g1' ws where step: "nxt g1 = Inr (v, g1')"
      and rest: "pull_two nxt pulls g1' g2 = Inr (ws, vs2)" and vs1: "vs1 = v # ws"
      by (auto split: sum.splits)
    from Cons.IH [OF rest] show ?thesis
      using True step vs1 by auto
  next
    case False
    with Cons.prems obtain v g2' ws where step: "nxt g2 = Inr (v, g2')"
      and rest: "pull_two nxt pulls g1 g2' = Inr (vs1, ws)" and vs2: "vs2 = v # ws"
      by (auto split: sum.splits)
    from Cons.IH [OF rest] show ?thesis
      using False step vs2 by auto
  qed
qed

lemma pull_two_same:
  assumes "pull_two nxt pulls g g = Inr (vs1, vs2)"
    and "length (filter (\<lambda>b. b) pulls) = n" and "length (filter Not pulls) = n"
  shows "vs1 = vs2 \<and> (\<exists>g'. islice nxt g n = Inr (vs1, g'))"
  using pull_two_islice [OF assms(1)] assms(2,3) by auto

lemma pull_two_example:
  "pull_two (tr_next gamma_rounded) [True, False, False, True] (inv_tr_nums 2) (inv_tr_nums 2) =
     Inr ([1, 1 / 3], [1, 1 / 3])"
  "pull_two (gap_next gamma_rounded) [True, False, False, True] (inv_gap_nums 2) (inv_gap_nums 2) =
     Inr ([0, 1 / 3], [0, 1 / 3])"
  by (simp_all add: inv_tr_nums_def inv_gap_nums_def tr_yield_rounded_2)

section \<open>The lines printed\<close>

text \<open>
  The loop prints \<^verbatim>\<open>str\<close> of the values of \<^verbatim>\<open>islice\<close>. The text of a Fraction
  starts with a digit, or with a minus sign followed by a digit, so it is never
  the separator line.
\<close>

lemma print_islice_islice:
  "islice nxt g k = Inr (vs, g') \<Longrightarrow>
     print_islice nxt g k out = (out @ map str_Fraction vs, Inr g')"
proof (induction k arbitrary: g out vs)
  case 0
  then show ?case by simp
next
  case (Suc k)
  from Suc.prems obtain v g1 ws where step: "nxt g = Inr (v, g1)"
    and rest: "islice nxt g1 k = Inr (ws, g')" and vs: "vs = v # ws"
    by (auto split: sum.splits)
  from Suc.IH [OF rest, of "out @ [str_Fraction v]"] show ?case
    by (simp add: step vs)
qed

lemma digit_char_not_minus: "i < 10 \<Longrightarrow> digit_char i \<noteq> CHR ''-''"
proof -
  assume "i < 10"
  then have "i \<in> {0, 1, 2, 3, 4, 5, 6, 7, 8, 9}" by auto
  then show ?thesis by (auto simp: digit_char_def)
qed

lemma str_nat_head: "str_nat i \<noteq> [] \<and> hd (str_nat i) \<noteq> CHR ''-''"
proof (induction i rule: str_nat.induct)
  case (1 i)
  show ?case
  proof (cases "i < 10")
    case True
    then show ?thesis
      by (subst (1 2) str_nat.simps) (simp add: digit_char_not_minus)
  next
    case False
    with "1" show ?thesis
      by (subst (1 2) str_nat.simps) simp
  qed
qed

lemma str_int_second: "str_int i \<noteq> [] \<and> (hd (str_int i) = CHR ''-'' \<longrightarrow> hd (tl (str_int i)) \<noteq> CHR ''-'' \<and> tl (str_int i) \<noteq> [])"
  using str_nat_head [of "nat i"] str_nat_head [of "nat (- i)"]
  by (simp add: str_int_def)

lemma str_Fraction_not_separator: "str_Fraction q \<noteq> ''---''"
proof -
  obtain a b where ab: "quotient_of q = (a, b)" by (cases "quotient_of q")
  obtain c cs where c: "str_int a = c # cs"
    using str_int_second [of a] by (cases "str_int a") auto
  show ?thesis
  proof (cases "c = CHR ''-''")
    case True
    with str_int_second [of a] c obtain c' cs' where "cs = c' # cs'" "c' \<noteq> CHR ''-''"
      by (cases cs) auto
    then show ?thesis by (simp add: str_Fraction_def ab c)
  next
    case False
    then show ?thesis by (simp add: str_Fraction_def ab c)
  qed
qed

lemma count_separator_block: "count_list (map str_Fraction vs) ''---'' = 0"
  using str_Fraction_not_separator by (induction vs) auto

lemma driver_blocks:
  assumes b1: "islice (tr_next gamma) (inv_tr_nums 2) 10 = Inr (b1, g1)"
    and b2: "islice (tr_next gamma) (inv_tr_nums 3) 10 = Inr (b2, g2)"
    and b3: "islice (gap_next gamma) (inv_gap_nums 2) 10 = Inr (b3, g3)"
    and b4: "islice (gap_next gamma) (inv_gap_nums 3) 10 = Inr (b4, g4)"
  shows "driver gamma =
     (map str_Fraction b1 @ [''---''] @ map str_Fraction b2 @ [''---''] @
      map str_Fraction b3 @ [''---''] @ map str_Fraction b4, None)"
  by (simp add: driver_def N_def d_default_def print_islice_islice [OF b1]
      print_islice_islice [OF b2] print_islice_islice [OF b3] print_islice_islice [OF b4])

lemma block_1:
  "map str_Fraction (map (\<lambda>j. 1 / rat_of_nat (nat (int j + 2) choose nat 2)) [0..<10]) =
     [''1'', ''1/3'', ''1/6'', ''1/10'', ''1/15'', ''1/21'', ''1/28'', ''1/36'', ''1/45'', ''1/55'']"
  by code_simp

lemma block_2:
  "map str_Fraction (map (\<lambda>j. 1 / rat_of_nat (nat (int j + 3) choose nat 3)) [0..<10]) =
     [''1'', ''1/4'', ''1/10'', ''1/20'', ''1/35'', ''1/56'', ''1/84'', ''1/120'', ''1/165'', ''1/220'']"
  by code_simp

lemma block_3:
  "map str_Fraction (map (\<lambda>i. foldl (+) (- 1)
       (take (Suc i) (map (\<lambda>j. 1 / rat_of_nat (nat (int j + 2) choose nat 2)) [0..<10]))) [0..<10]) =
     [''0'', ''1/3'', ''1/2'', ''3/5'', ''2/3'', ''5/7'', ''3/4'', ''7/9'', ''4/5'', ''9/11'']"
  by code_simp

lemma block_4:
  "map str_Fraction (map (\<lambda>i. foldl (+) (- 1)
       (take (Suc i) (map (\<lambda>j. 1 / rat_of_nat (nat (int j + 3) choose nat 3)) [0..<10]))) [0..<10]) =
     [''0'', ''1/4'', ''7/20'', ''2/5'', ''3/7'', ''25/56'', ''11/24'', ''7/15'', ''26/55'', ''21/44'']"
  by code_simp

lemma driver_rounded_output:
  "driver gamma_rounded =
     ([''1'', ''1/3'', ''1/6'', ''1/10'', ''1/15'', ''1/21'', ''1/28'', ''1/36'', ''1/45'', ''1/55'',
       ''---'',
       ''1'', ''1/4'', ''1/10'', ''1/20'', ''1/35'', ''1/56'', ''1/84'', ''1/120'', ''1/165'', ''1/220'',
       ''---'',
       ''0'', ''1/3'', ''1/2'', ''3/5'', ''2/3'', ''5/7'', ''3/4'', ''7/9'', ''4/5'', ''9/11'',
       ''---'',
       ''0'', ''1/4'', ''7/20'', ''2/5'', ''3/7'', ''25/56'', ''11/24'', ''7/15'', ''26/55'', ''21/44''],
      None)"
proof -
  have k: "0 < (10::nat)" by simp
  have t2: "islice (tr_next gamma_rounded) (inv_tr_nums 2) 10 =
      Inr (map (\<lambda>j. 1 / rat_of_nat (nat (int j + 2) choose nat 2)) [0..<10], Tr_suspended 2 (int 10))"
    by (rule islice_inv_tr_nums_exact) (simp_all add: gamma_exact_rounded)
  have t3: "islice (tr_next gamma_rounded) (inv_tr_nums 3) 10 =
      Inr (map (\<lambda>j. 1 / rat_of_nat (nat (int j + 3) choose nat 3)) [0..<10], Tr_suspended 3 (int 10))"
    by (rule islice_inv_tr_nums_exact) (simp_all add: gamma_exact_rounded)
  note p2 = islice_inv_gap_nums [OF k, of gamma_rounded 2, unfolded t2 sum.case prod.case]
  note p3 = islice_inv_gap_nums [OF k, of gamma_rounded 3, unfolded t3 sum.case prod.case]
  show ?thesis
    unfolding driver_blocks [OF t2 t3 p2 p3] block_1 block_2 block_3 block_4 by simp
qed

section \<open>The claims\<close>

text \<open>
  C1 (amended). For \<open>d \<ge> 1\<close> and \<open>n \<ge> 1\<close> with \<open>n + d \<le> 19\<close>, and a gamma
  evaluator that returns \<open>\<Gamma>(k) = (k - 1)!\<close> exactly for \<open>k = 1..n + d\<close> (these
  factorials are below \<open>2^53\<close>), \<^verbatim>\<open>inv_tr_nums(d)\<close> yields \<open>n\<close> values and the
  \<open>n\<close>-th is exactly \<open>1 / C(n + d - 1, d)\<close>.
\<close>

theorem inv_tr_nums_reciprocal_binomial:
  assumes "1 \<le> d" and "1 \<le> n" and "int n + d \<le> 19"
    and "gamma_exact gamma (int n + d)"
  shows "\<exists>vs g. islice (tr_next gamma) (inv_tr_nums d) n = Inr (vs, g) \<and>
      length vs = n \<and>
      vs ! (n - 1) = 1 / of_nat ((n + nat d - 1) choose nat d)"
proof -
  have "islice (tr_next gamma) (inv_tr_nums d) n =
      Inr (map (\<lambda>j. 1 / of_nat (nat (int j + d) choose nat d)) [0..<n], Tr_suspended d (int n))"
    using assms by (intro islice_inv_tr_nums_exact) simp_all
  moreover have "nat (int (n - 1) + d) = n + nat d - 1"
    using assms(1,2) by (simp add: nat_add_distrib)
  ultimately show ?thesis using assms(2) by simp
qed

theorem inv_tr_nums_reciprocal_binomial_witness:
  "(1::int) \<le> 2 \<and> (1::nat) \<le> 3 \<and> int 3 + 2 \<le> 19 \<and> gamma_exact gamma_rounded (int 3 + 2) \<and>
   (case islice (tr_next gamma_rounded) (inv_tr_nums 2) 3 of
      Inl e \<Rightarrow> False
    | Inr (vs, g) \<Rightarrow> length vs = 3 \<and> vs ! 2 = 1 / 6)"
proof -
  have g: "gamma_exact gamma_rounded (int 3 + 2)"
    by (simp add: gamma_exact_rounded)
  from inv_tr_nums_reciprocal_binomial [OF _ _ _ g] obtain vs g'
    where "islice (tr_next gamma_rounded) (inv_tr_nums 2) 3 = Inr (vs, g')" "length vs = 3"
      "vs ! (3 - 1) = 1 / of_nat ((3 + nat 2 - 1) choose nat 2)"
    by auto
  then show ?thesis using g by (simp add: choose_values)
qed

text \<open>
  C1 as stated fails, in two ways. \<open>C(171, 171) = 1\<close>, but
  \<^verbatim>\<open>inv_tr_nums(171)\<close> yields no first value: \<open>\<Gamma>(172) = 171!\<close> exceeds the
  largest double, so the ratio is \<^verbatim>\<open>inf / (1.0 * inf)\<close>, a NaN, and
  \<^verbatim>\<open>Fraction\<close> raises ValueError. And \<^verbatim>\<open>inv_tr_nums(32)\<close> yields 26 values of
  which the 26th is not \<open>1 / C(57, 32)\<close>: \<open>C(57, 32) = 9929472283517787\<close> is
  odd and greater than \<open>2^53\<close>, so no double has this value.
\<close>

theorem inv_tr_nums_not_exact_counterexample:
  "((171::nat) choose 171 = 1 \<and>
    islice (tr_next gamma_rounded) (inv_tr_nums 171) 1 = Inl ValueError) \<and>
   (case islice (tr_next gamma_rounded) (inv_tr_nums 32) 26 of
      Inl e \<Rightarrow> False
    | Inr (vs, g) \<Rightarrow> length vs = 26 \<and> vs ! 25 \<noteq> 1 / of_nat (57 choose 32))"
  using inexact_26th by (simp add: inv_tr_nums_def tr_yield_171)

text \<open>
  C2. For every \<open>d \<ge> 1\<close> and \<open>k \<ge> 1\<close>, the \<open>k\<close>-th value yielded by
  \<^verbatim>\<open>inv_gap_nums(d)\<close> is \<open>-1\<close> plus the sum of the first \<open>k\<close> values yielded by
  \<^verbatim>\<open>inv_tr_nums(d)\<close>, accumulated left to right from an accumulator that starts
  at \<open>-1\<close>; the same holds for every earlier value. When \<^verbatim>\<open>inv_tr_nums(d)\<close>
  raises an exception within its first \<open>k\<close> values, \<^verbatim>\<open>inv_gap_nums(d)\<close> raises the
  same exception within its first \<open>k\<close> values.
\<close>

theorem inv_gap_nums_running_sum:
  assumes "1 \<le> d" and "1 \<le> k"
  shows "case islice (tr_next gamma) (inv_tr_nums d) k of
      Inl e \<Rightarrow> islice (gap_next gamma) (inv_gap_nums d) k = Inl e
    | Inr (ts, g) \<Rightarrow>
        (\<exists>vs g'. islice (gap_next gamma) (inv_gap_nums d) k = Inr (vs, g') \<and>
           length vs = k \<and>
           vs ! (k - 1) = foldl (+) (- 1) ts \<and>
           vs ! (k - 1) = - 1 + sum_list ts \<and>
           (\<forall>j<k. vs ! j = foldl (+) (- 1) (take (Suc j) ts)))"
proof (cases "islice (tr_next gamma) (inv_tr_nums d) k")
  case (Inl e)
  then show ?thesis using assms(2) by (simp add: islice_inv_gap_nums)
next
  case (Inr p)
  obtain ts g where p: "p = (ts, g)" by (cases p)
  note tr = Inr [unfolded p]
  have len: "length ts = k"
    using islice_inv_tr_numsD(1) [OF tr] .
  have "islice (gap_next gamma) (inv_gap_nums d) k =
      Inr (map (\<lambda>j. foldl (+) (- 1) (take (Suc j) ts)) [0..<k], Gap_suspended (foldl (+) (- 1) ts) g)"
    using assms(2) tr by (simp add: islice_inv_gap_nums)
  moreover have "map (\<lambda>j. foldl (+) (- 1) (take (Suc j) ts)) [0..<k] ! (k - 1) = foldl (+) (- 1) ts"
    using assms(2) len by simp
  ultimately show ?thesis
    using assms(2) by (simp add: tr foldl_add_sum_list)
qed

theorem inv_gap_nums_running_sum_witness:
  "(1::int) \<le> 2 \<and> (1::nat) \<le> 3 \<and>
   islice (tr_next gamma_rounded) (inv_tr_nums 2) 3 = Inr ([1, 1 / 3, 1 / 6], Tr_suspended 2 3) \<and>
   (case islice (gap_next gamma_rounded) (inv_gap_nums 2) 3 of
      Inl e \<Rightarrow> False
    | Inr (vs, g') \<Rightarrow> length vs = 3 \<and> vs ! 2 = 1 / 2 \<and> vs ! 1 = 1 / 3 \<and> vs ! 0 = 0) \<and>
   islice (tr_next gamma_rounded) (inv_tr_nums 171) 1 = Inl ValueError \<and>
   islice (gap_next gamma_rounded) (inv_gap_nums 171) 1 = Inl ValueError"
proof -
  have tr: "islice (tr_next gamma_rounded) (inv_tr_nums 2) 3 = Inr ([1, 1 / 3, 1 / 6], Tr_suspended 2 3)"
    by (rule first_three_tr) (simp add: gamma_exact_rounded)
  from inv_gap_nums_running_sum [of 2 3 gamma_rounded] obtain vs g'
    where "islice (gap_next gamma_rounded) (inv_gap_nums 2) 3 = Inr (vs, g')"
      and "length vs = 3" and "\<forall>j<3. vs ! j = foldl (+) (- 1) (take (Suc j) [1, 1 / 3, 1 / 6])"
    unfolding tr by auto
  moreover from this(3) have "vs ! 2 = 1 / 2" "vs ! 1 = 1 / 3" "vs ! 0 = 0"
    by simp_all
  moreover have bad: "islice (tr_next gamma_rounded) (inv_tr_nums 171) 1 = Inl ValueError"
    by (simp add: inv_tr_nums_def tr_yield_171)
  moreover from inv_gap_nums_running_sum [of 171 1 gamma_rounded]
  have "islice (gap_next gamma_rounded) (inv_gap_nums 171) 1 = Inl ValueError"
    unfolding bad by simp
  ultimately show ?thesis using tr by simp
qed

text \<open>
  C3 (amended). With a gamma evaluator exact on \<open>1..5\<close>, the first three
  values yielded by \<^verbatim>\<open>inv_gap_nums(2)\<close> are \<open>0\<close>, \<open>1/3\<close> and \<open>1/2\<close>, in this order.
\<close>

theorem inv_gap_nums_2_first_three:
  assumes "gamma_exact gamma 5"
  shows "islice (gap_next gamma) (inv_gap_nums 2) 3 =
     Inr ([0, 1 / 3, 1 / 2], Gap_suspended (1 / 2) (Tr_suspended 2 3))"
  using assms by (rule first_three_gap)

theorem inv_gap_nums_2_first_three_witness:
  "gamma_exact gamma_rounded 5 \<and>
   islice (gap_next gamma_rounded) (inv_gap_nums 2) 3 =
     Inr ([0, 1 / 3, 1 / 2], Gap_suspended (1 / 2) (Tr_suspended 2 3))"
proof -
  have g: "gamma_exact gamma_rounded 5" by (simp add: gamma_exact_rounded)
  from inv_gap_nums_2_first_three [OF g] g show ?thesis by simp
qed

text \<open>
  C3 as stated fails: the second and third values are \<open>1/3\<close> and \<open>1/2\<close>, not
  \<open>-2/3\<close> and \<open>-1/2\<close>.
\<close>

theorem inv_gap_nums_2_counterexample:
  "islice (gap_next gamma_rounded) (inv_gap_nums 2) 3 =
     Inr ([0, 1 / 3, 1 / 2], Gap_suspended (1 / 2) (Tr_suspended 2 3)) \<and>
   [0, 1 / 3, 1 / 2] \<noteq> [0, - 2 / 3, - 1 / 2 :: rat]"
proof -
  have "gamma_exact gamma_rounded 5" by (simp add: gamma_exact_rounded)
  from first_three_gap [OF this] show ?thesis by simp
qed

text \<open>
  C4. With a gamma evaluator exact on \<open>1..13\<close>, the driver prints the first
  10 values of \<^verbatim>\<open>inv_tr_nums(2)\<close>, of \<^verbatim>\<open>inv_tr_nums(3)\<close>, of \<^verbatim>\<open>inv_gap_nums(2)\<close>
  and of \<^verbatim>\<open>inv_gap_nums(3)\<close>, in this order, one value per line, with a line
  \<^verbatim>\<open>---\<close> after the first, the second and the third block and none after the
  fourth: 43 lines, exactly three of them separators, and no exception. Taking
  the ten values leaves each generator suspended at \<open>n = 10\<close>: exactly ten values
  are consumed.
\<close>

theorem driver_output:
  assumes "gamma_exact gamma 13"
  shows "\<exists>b1 b2 b3 b4 x3 x4.
      islice (tr_next gamma) (inv_tr_nums 2) 10 = Inr (b1, Tr_suspended 2 10) \<and>
      islice (tr_next gamma) (inv_tr_nums 3) 10 = Inr (b2, Tr_suspended 3 10) \<and>
      islice (gap_next gamma) (inv_gap_nums 2) 10 = Inr (b3, Gap_suspended x3 (Tr_suspended 2 10)) \<and>
      islice (gap_next gamma) (inv_gap_nums 3) 10 = Inr (b4, Gap_suspended x4 (Tr_suspended 3 10)) \<and>
      length b1 = 10 \<and> length b2 = 10 \<and> length b3 = 10 \<and> length b4 = 10 \<and>
      driver gamma =
        (map str_Fraction b1 @ [''---''] @ map str_Fraction b2 @ [''---''] @
         map str_Fraction b3 @ [''---''] @ map str_Fraction b4, None) \<and>
      length (fst (driver gamma)) = 43 \<and>
      count_list (fst (driver gamma)) ''---'' = 3"
proof -
  have g2: "gamma_exact gamma (int 10 + 2)" and g3: "gamma_exact gamma (int 10 + 3)"
    using assms by (auto intro: gamma_exact_mono)
  obtain b1 where b1: "islice (tr_next gamma) (inv_tr_nums 2) 10 = Inr (b1, Tr_suspended 2 10)"
    using islice_inv_tr_nums_exact [OF _ _ _ g2] by simp
  obtain b2 where b2: "islice (tr_next gamma) (inv_tr_nums 3) 10 = Inr (b2, Tr_suspended 3 10)"
    using islice_inv_tr_nums_exact [OF _ _ _ g3] by simp
  obtain b3 x3
    where b3: "islice (gap_next gamma) (inv_gap_nums 2) 10 = Inr (b3, Gap_suspended x3 (Tr_suspended 2 10))"
      and l3: "length b3 = 10"
    using islice_inv_gap_nums_exact [OF _ _ _ g2] by auto
  obtain b4 x4
    where b4: "islice (gap_next gamma) (inv_gap_nums 3) 10 = Inr (b4, Gap_suspended x4 (Tr_suspended 3 10))"
      and l4: "length b4 = 10"
    using islice_inv_gap_nums_exact [OF _ _ _ g3] by auto
  have l1: "length b1 = 10" and l2: "length b2 = 10"
    using islice_inv_tr_numsD(1) [OF b1] islice_inv_tr_numsD(1) [OF b2] by simp_all
  note out = driver_blocks [OF b1 b2 b3 b4]
  have len: "length (fst (driver gamma)) = 43"
    by (simp add: out l1 l2 l3 l4)
  have cnt: "count_list (fst (driver gamma)) ''---'' = 3"
    by (simp add: out count_separator_block)
  from b1 b2 b3 b4 l1 l2 l3 l4 out len cnt show ?thesis
    by (intro exI [of _ b1] exI [of _ b2] exI [of _ b3] exI [of _ b4] exI [of _ x3] exI [of _ x4])
      (simp only: simp_thms)
qed

theorem driver_output_witness:
  "gamma_exact gamma_rounded 13 \<and>
   length (fst (driver gamma_rounded)) = 43 \<and>
   count_list (fst (driver gamma_rounded)) ''---'' = 3 \<and>
   driver gamma_rounded =
     ([''1'', ''1/3'', ''1/6'', ''1/10'', ''1/15'', ''1/21'', ''1/28'', ''1/36'', ''1/45'', ''1/55'',
       ''---'',
       ''1'', ''1/4'', ''1/10'', ''1/20'', ''1/35'', ''1/56'', ''1/84'', ''1/120'', ''1/165'', ''1/220'',
       ''---'',
       ''0'', ''1/3'', ''1/2'', ''3/5'', ''2/3'', ''5/7'', ''3/4'', ''7/9'', ''4/5'', ''9/11'',
       ''---'',
       ''0'', ''1/4'', ''7/20'', ''2/5'', ''3/7'', ''25/56'', ''11/24'', ''7/15'', ''26/55'', ''21/44''],
      None)"
proof -
  have g: "gamma_exact gamma_rounded 13" by (simp add: gamma_exact_rounded)
  from driver_output [OF g] obtain out
    where "driver gamma_rounded = (out, None)" "length (fst (driver gamma_rounded)) = 43"
      "count_list (fst (driver gamma_rounded)) ''---'' = 3"
    by auto
  then show ?thesis using g driver_rounded_output by simp
qed

text \<open>
  C5. At every production step of \<^verbatim>\<open>inv_tr_nums(d)\<close> that yields a value, the
  gamma ratio \<open>r\<close> is a finite, non-zero double: \<open>r = m * 2^e\<close> with an integer
  significand \<open>0 < m \<le> 2^53\<close> and \<open>e \<ge> -1074\<close>. \<^verbatim>\<open>Fraction(r)\<close> is this
  rational itself, the exact binary value of the double and not a decimal
  approximation of it, and the value yielded is its exact reciprocal: their
  product is 1. Stated for \<open>d \<ge> 1\<close> and a gamma evaluator that returns no
  negative value on positive arguments.
\<close>

theorem yield_is_reciprocal_of_double:
  assumes "gamma_positive gamma" and "1 \<le> d"
    and "islice (tr_next gamma) (inv_tr_nums d) k = Inr (vs, g)" and "j < k"
  shows "\<exists>m e. 0 < m \<and> m \<le> 2 ^ 53 \<and> - 1074 \<le> e \<and>
     float_truediv (gamma (int j + 1 + d)) (float_mul (gamma (int j + 1)) (gamma (d + 1))) =
       Finite False (of_int m * pow2 e) \<and>
     Fraction (Finite False (of_int m * pow2 e)) = Inr (of_int m * pow2 e) \<and>
     vs ! j * (of_int m * pow2 e) = 1"
proof -
  have "tr_yield gamma d (int j + 1) = Inr (vs ! j)"
    using islice_inv_tr_numsD(3) [OF assms(3,4)] by (simp add: add.commute)
  from tr_yield_reciprocal_of_double [OF assms(1,2) _ this]
  show ?thesis by simp
qed

theorem yield_is_reciprocal_of_double_witness:
  "gamma_positive gamma_rounded \<and> (1::int) \<le> 2 \<and>
   islice (tr_next gamma_rounded) (inv_tr_nums 2) 3 = Inr ([1, 1 / 3, 1 / 6], Tr_suspended 2 3) \<and>
   (1::nat) < 3 \<and>
   (\<exists>m e. 0 < m \<and> m \<le> 2 ^ 53 \<and> - 1074 \<le> e \<and>
      float_truediv (gamma_rounded 4) (float_mul (gamma_rounded 2) (gamma_rounded 3)) =
        Finite False (of_int m * pow2 e) \<and>
      1 / 3 * (rat_of_int m * pow2 e) = 1)"
proof -
  have g: "gamma_exact gamma_rounded 5" by (simp add: gamma_exact_rounded)
  note tr = first_three_tr [OF g]
  from yield_is_reciprocal_of_double [OF gamma_positive_rounded _ tr, of 1]
  have "\<exists>m e. 0 < m \<and> m \<le> 2 ^ 53 \<and> - 1074 \<le> e \<and>
      float_truediv (gamma_rounded 4) (float_mul (gamma_rounded 2) (gamma_rounded 3)) =
        Finite False (of_int m * pow2 e) \<and>
      1 / 3 * (rat_of_int m * pow2 e) = 1"
    by simp
  then show ?thesis using tr gamma_positive_rounded by simp
qed

text \<open>
  C6. With a gamma evaluator exact on \<open>1..2\<close>, the first value yielded by
  \<^verbatim>\<open>inv_tr_nums(1)\<close> is \<open>1\<close> and the first value yielded by \<^verbatim>\<open>inv_gap_nums(1)\<close>
  is \<open>0\<close>.
\<close>

theorem first_values_at_d_1:
  assumes "gamma_exact gamma 2"
  shows "islice (tr_next gamma) (inv_tr_nums 1) 1 = Inr ([1], Tr_suspended 1 1) \<and>
     islice (gap_next gamma) (inv_gap_nums 1) 1 = Inr ([0], Gap_suspended 0 (Tr_suspended 1 1))"
proof -
  note tr = first_d1 [OF assms]
  have "islice (gap_next gamma) (inv_gap_nums 1) 1 =
      Inr ([0], Gap_suspended 0 (Tr_suspended 1 1))"
    unfolding islice_inv_gap_nums [of 1 gamma 1, OF zero_less_one] tr by simp
  with tr show ?thesis by (rule conjI)
qed

theorem first_values_at_d_1_witness:
  "gamma_exact gamma_rounded 2 \<and>
   islice (tr_next gamma_rounded) (inv_tr_nums 1) 1 = Inr ([1], Tr_suspended 1 1) \<and>
   islice (gap_next gamma_rounded) (inv_gap_nums 1) 1 = Inr ([0], Gap_suspended 0 (Tr_suspended 1 1))"
proof -
  have g: "gamma_exact gamma_rounded 2" by (simp add: gamma_exact_rounded)
  from first_values_at_d_1 [OF g] g show ?thesis by simp
qed

text \<open>
  C7. Two generator objects created by the same producer with the same \<open>d\<close>
  yield identical values: however the calls of \<^verbatim>\<open>next\<close> on the two objects
  are interleaved, once each has been advanced \<open>n\<close> times both have yielded the
  same \<open>n\<close> values, those of \<^verbatim>\<open>islice\<close> on a single object.
\<close>

theorem same_d_same_values:
  assumes "length (filter (\<lambda>b. b) pulls) = n" and "length (filter Not pulls) = n"
  shows "(pull_two (tr_next gamma) pulls (inv_tr_nums d) (inv_tr_nums d) = Inr (vs1, vs2) \<longrightarrow>
        vs1 = vs2 \<and> (\<exists>g. islice (tr_next gamma) (inv_tr_nums d) n = Inr (vs1, g))) \<and>
     (pull_two (gap_next gamma) pulls (inv_gap_nums d) (inv_gap_nums d) = Inr (ws1, ws2) \<longrightarrow>
        ws1 = ws2 \<and> (\<exists>g. islice (gap_next gamma) (inv_gap_nums d) n = Inr (ws1, g)))"
  using pull_two_same [of "tr_next gamma" pulls "inv_tr_nums d" vs1 vs2 n]
    pull_two_same [of "gap_next gamma" pulls "inv_gap_nums d" ws1 ws2 n] assms
  by blast

theorem same_d_same_values_witness:
  "length (filter (\<lambda>b. b) [True, False, False, True]) = 2 \<and>
   length (filter Not [True, False, False, True]) = 2 \<and>
   pull_two (tr_next gamma_rounded) [True, False, False, True] (inv_tr_nums 2) (inv_tr_nums 2) =
     Inr ([1, 1 / 3], [1, 1 / 3]) \<and>
   pull_two (gap_next gamma_rounded) [True, False, False, True] (inv_gap_nums 2) (inv_gap_nums 2) =
     Inr ([0, 1 / 3], [0, 1 / 3]) \<and>
   (\<exists>g. islice (tr_next gamma_rounded) (inv_tr_nums 2) 2 = Inr ([1, 1 / 3], g)) \<and>
   (\<exists>g. islice (gap_next gamma_rounded) (inv_gap_nums 2) 2 = Inr ([0, 1 / 3], g))"
proof -
  have l: "length (filter (\<lambda>b. b) [True, False, False, True]) = 2"
    "length (filter Not [True, False, False, True]) = 2"
    by simp_all
  from same_d_same_values [OF l, of gamma_rounded 2 "[1, 1 / 3]" "[1, 1 / 3]" "[0, 1 / 3]" "[0, 1 / 3]"]
  have "(\<exists>g. islice (tr_next gamma_rounded) (inv_tr_nums 2) 2 = Inr ([1, 1 / 3], g)) \<and>
      (\<exists>g. islice (gap_next gamma_rounded) (inv_gap_nums 2) 2 = Inr ([0, 1 / 3], g))"
    unfolding pull_two_example by simp
  then show ?thesis using l pull_two_example by simp
qed

text \<open>
  C8. The index \<open>n\<close> of \<^verbatim>\<open>inv_tr_nums(d)\<close> is 1 at the first value and one
  more at each further value: for every \<open>j < k\<close>, after \<open>j + 1\<close> values the
  generator is suspended with \<open>n = j + 1\<close>, and the \<open>(j+1)\<close>-th value is the
  \<^verbatim>\<open>yield\<close> expression at \<open>n = j + 1\<close>. No index is skipped or used twice.
\<close>

theorem inv_tr_nums_index:
  assumes "1 \<le> k"
    and "islice (tr_next gamma) (inv_tr_nums d) k = Inr (vs, g)"
  shows "g = Tr_suspended d (int k) \<and> length vs = k \<and>
      (\<forall>j<k. tr_yield gamma d (int j + 1) = Inr (vs ! j) \<and>
         islice (tr_next gamma) (inv_tr_nums d) (Suc j) =
           Inr (take (Suc j) vs, Tr_suspended d (int j + 1)))"
  using islice_inv_tr_numsD [OF assms(2)] inv_tr_nums_frames [OF assms(2)] assms(1)
  by (simp add: add.commute)

theorem inv_tr_nums_index_witness:
  "(1::nat) \<le> 3 \<and>
   islice (tr_next gamma_rounded) (inv_tr_nums 2) 3 = Inr ([1, 1 / 3, 1 / 6], Tr_suspended 2 3) \<and>
   Tr_suspended 2 3 = Tr_suspended 2 (int 3) \<and> length [1, 1 / 3, 1 / 6 :: rat] = 3 \<and>
   tr_yield gamma_rounded 2 1 = Inr 1 \<and> tr_yield gamma_rounded 2 2 = Inr (1 / 3) \<and>
   tr_yield gamma_rounded 2 3 = Inr (1 / 6)"
proof -
  have tr: "islice (tr_next gamma_rounded) (inv_tr_nums 2) 3 = Inr ([1, 1 / 3, 1 / 6], Tr_suspended 2 3)"
    by (rule first_three_tr) (simp add: gamma_exact_rounded)
  from inv_tr_nums_index [OF _ tr]
  have *: "\<forall>j<3. tr_yield gamma_rounded 2 (int j + 1) = Inr ([1, 1 / 3, 1 / 6] ! j)"
    by auto
  from * [rule_format, of 0] * [rule_format, of 1] * [rule_format, of 2] tr
  show ?thesis by simp
qed

text \<open>
  C9. For \<open>d \<ge> 1\<close> and a gamma evaluator that returns no negative value on
  positive arguments, every value yielded by \<^verbatim>\<open>inv_tr_nums(d)\<close> is strictly
  positive, and the values yielded by \<^verbatim>\<open>inv_gap_nums(d)\<close> are strictly
  increasing: each value is greater than the one before it.
\<close>

theorem terms_positive_gaps_increasing:
  assumes "gamma_positive gamma" and "1 \<le> d"
  shows "(islice (tr_next gamma) (inv_tr_nums d) k = Inr (ts, g) \<longrightarrow> (\<forall>j<k. 0 < ts ! j)) \<and>
     (islice (gap_next gamma) (inv_gap_nums d) k = Inr (vs, g') \<longrightarrow>
        (\<forall>j. Suc j < k \<longrightarrow> vs ! j < vs ! Suc j))"
  using islice_tr_positive [OF assms] islice_gap_increasing [OF assms] by blast

theorem terms_positive_gaps_increasing_witness:
  "gamma_positive gamma_rounded \<and> (1::int) \<le> 2 \<and>
   islice (tr_next gamma_rounded) (inv_tr_nums 2) 3 = Inr ([1, 1 / 3, 1 / 6], Tr_suspended 2 3) \<and>
   islice (gap_next gamma_rounded) (inv_gap_nums 2) 3 =
     Inr ([0, 1 / 3, 1 / 2], Gap_suspended (1 / 2) (Tr_suspended 2 3)) \<and>
   (0::rat) < [1, 1 / 3, 1 / 6] ! 2 \<and> [0, 1 / 3, 1 / 2 :: rat] ! 1 < [0, 1 / 3, 1 / 2] ! Suc 1"
proof -
  have g: "gamma_exact gamma_rounded 5" by (simp add: gamma_exact_rounded)
  note tr = first_three_tr [OF g] and gap = first_three_gap [OF g]
  from terms_positive_gaps_increasing [OF gamma_positive_rounded, of 2 3
      "[1, 1 / 3, 1 / 6]" "Tr_suspended 2 3" "[0, 1 / 3, 1 / 2]" "Gap_suspended (1 / 2) (Tr_suspended 2 3)"]
  have "(\<forall>j<3. (0::rat) < [1, 1 / 3, 1 / 6] ! j) \<and>
      (\<forall>j. Suc j < 3 \<longrightarrow> [0, 1 / 3, 1 / 2 :: rat] ! j < [0, 1 / 3, 1 / 2] ! Suc j)"
    using tr gap by simp
  then have "(0::rat) < [1, 1 / 3, 1 / 6] ! 2" "[0, 1 / 3, 1 / 2 :: rat] ! 1 < [0, 1 / 3, 1 / 2] ! Suc 1"
    by (metis numeral_3_eq_3 lessI numeral_2_eq_2 One_nat_def)+
  then show ?thesis using tr gap gamma_positive_rounded by simp
qed

text \<open>
  C10. With a gamma evaluator exact on \<open>1..12\<close>, for every \<open>k\<close> from 1 to 10
  the \<open>k\<close>-th value yielded by \<^verbatim>\<open>inv_gap_nums(2)\<close> is \<open>1 - 2/(k+1)\<close>, and it is
  strictly less than 1.
\<close>

theorem inv_gap_nums_2_closed_form:
  assumes "gamma_exact gamma 12" and "1 \<le> k" and "k \<le> 10"
  shows "\<exists>vs g. islice (gap_next gamma) (inv_gap_nums 2) k = Inr (vs, g) \<and>
      length vs = k \<and>
      vs ! (k - 1) = 1 - 2 / (of_nat k + 1) \<and>
      vs ! (k - 1) < 1"
proof -
  let ?ts = "map (\<lambda>j. 1 / rat_of_nat (nat (int j + 2) choose nat 2)) [0..<k]"
  have g: "gamma_exact gamma (int k + 2)"
    using assms(1,3) by (auto intro: gamma_exact_mono)
  have tr: "islice (tr_next gamma) (inv_tr_nums 2) k = Inr (?ts, Tr_suspended 2 (int k))"
    using assms(2,3) g by (intro islice_inv_tr_nums_exact) simp_all
  have gap: "islice (gap_next gamma) (inv_gap_nums 2) k =
      Inr (map (\<lambda>j. foldl (+) (- 1) (take (Suc j) ?ts)) [0..<k],
           Gap_suspended (foldl (+) (- 1) ?ts) (Tr_suspended 2 (int k)))"
    using assms(2) by (simp add: islice_inv_gap_nums tr)
  have "map (\<lambda>j. foldl (+) (- 1) (take (Suc j) ?ts)) [0..<k] ! (k - 1) = foldl (+) (- 1) ?ts"
    using assms(2) by simp
  also have "\<dots> = 1 - 2 / (of_nat k + 1)"
    using telescope [of k] by (simp add: foldl_add_sum_list)
  finally have last: "map (\<lambda>j. foldl (+) (- 1) (take (Suc j) ?ts)) [0..<k] ! (k - 1) =
      1 - 2 / (of_nat k + 1)" .
  have "(0::rat) < 2 / (of_nat k + 1)" by (simp add: add_pos_nonneg)
  then have "1 - 2 / (rat_of_nat k + 1) < 1" by simp
  with gap last show ?thesis by simp
qed

theorem inv_gap_nums_2_closed_form_witness:
  "gamma_exact gamma_rounded 12 \<and> (1::nat) \<le> 3 \<and> (3::nat) \<le> 10 \<and>
   (case islice (gap_next gamma_rounded) (inv_gap_nums 2) 3 of
      Inl e \<Rightarrow> False
    | Inr (vs, g) \<Rightarrow> length vs = 3 \<and> vs ! 2 = 1 / 2 \<and> vs ! 2 < 1)"
proof -
  have g: "gamma_exact gamma_rounded 12" by (simp add: gamma_exact_rounded)
  from inv_gap_nums_2_closed_form [OF g, of 3] obtain vs g'
    where "islice (gap_next gamma_rounded) (inv_gap_nums 2) 3 = Inr (vs, g')" "length vs = 3"
      "vs ! (3 - 1) = 1 - 2 / (of_nat 3 + 1)" "vs ! (3 - 1) < 1"
    by auto
  then show ?thesis using g by simp
qed

end
